theory Spec2Isabelle
  imports Main "HOL-Library.AList"
begin

section \<open>The interactive shell of slipsomat (\<^verbatim>\<open>src/slipsomat/shell.py\<close>)\<close>

text \<open>
  The shell is a subclass of the standard library's \<^verbatim>\<open>cmd.Cmd\<close>. Its handlers print,
  call the remote session object (\<^verbatim>\<open>self.worker\<close>), call one of the operations
  \<^verbatim>\<open>pull\<close>, \<^verbatim>\<open>pull_defaults\<close>, \<^verbatim>\<open>push\<close>, \<^verbatim>\<open>test\<close> and leave the process
  with \<^verbatim>\<open>sys.exit\<close>. The model records every such effect, in the order in which it
  happens, in a log, and returns how the handler ends.
\<close>

subsection \<open>Python strings\<close>

text \<open>
  A Python string is modelled as the list of its code points, and a character of the
  model is a code point below 256; strings with other code points are not values of the
  model. Every function of the shell but \<^verbatim>\<open>str.strip\<close> looks for ASCII characters
  only.

  \<^verbatim>\<open>str.isspace\<close> on these code points: tab, line feed, vertical tab, form feed,
  carriage return, the four separators \<^verbatim>\<open>\x1c\<close> to \<^verbatim>\<open>\x1f\<close>, the space, the
  next-line control \<^verbatim>\<open>\x85\<close> and the no-break space \<^verbatim>\<open>\xa0\<close>.
\<close>

definition isspace :: "char \<Rightarrow> bool" where
  "isspace c = (of_char c \<in> {9, 10, 11, 12, 13, 28, 29, 30, 31, 32, 133, 160 :: nat})"

text \<open>\<^verbatim>\<open>str.strip()\<close>: without leading and trailing whitespace.\<close>

definition strip :: "string \<Rightarrow> string" where
  "strip s = rev (dropWhile isspace (rev (dropWhile isspace s)))"

text \<open>
  \<^verbatim>\<open>str.split(sep)\<close> for a separator of one character: the pieces between the
  separators, empty pieces kept, so that the result is never empty.
\<close>

fun split_on :: "char \<Rightarrow> string \<Rightarrow> string list" where
  "split_on c [] = [[]]"
| "split_on c (x # xs) =
     (if x = c then [] # split_on c xs
      else (x # hd (split_on c xs)) # tl (split_on c xs))"

text \<open>
  \<^verbatim>\<open>os.path.join(a, b)\<close> of \<^verbatim>\<open>posixpath\<close>: an absolute \<open>b\<close> replaces \<open>a\<close>;
  otherwise \<open>b\<close> is appended, after a slash unless \<open>a\<close> is empty or ends with one.
\<close>

definition os_path_join :: "string \<Rightarrow> string \<Rightarrow> string" where
  "os_path_join a b =
     (if b \<noteq> [] \<and> hd b = CHR ''/'' then b
      else if a = [] \<or> last a = CHR ''/'' then a @ b
      else a @ ''/'' @ b)"

subsection \<open>\<^verbatim>\<open>shlex.split\<close>\<close>

text \<open>
  \<^verbatim>\<open>shlex.split(s)\<close> runs the lexer in POSIX mode with \<^verbatim>\<open>whitespace_split\<close> set
  and no comment characters. The lexer state is \<^verbatim>\<open>' '\<close> (between tokens),
  \<^verbatim>\<open>'a'\<close> (in a word), a quote character, or the escape character together with the
  state to return to (\<^verbatim>\<open>escapedstate\<close>). A token is emitted at whitespace or at the
  end of input when it is not empty or was quoted. End of input inside quotes or after a
  backslash raises \<^verbatim>\<open>ValueError\<close>.
\<close>

datatype exn = ValueError string | OperationError string

datatype lexstate = Between | InWord | InQuote char | Escaped lexstate

definition shlex_whitespace :: "char \<Rightarrow> bool" where
  "shlex_whitespace c = (c \<in> {CHR '' '', CHR 0x09, CHR 0x0D, CHR 0x0A})"

definition shlex_quote :: "char \<Rightarrow> bool" where
  "shlex_quote c = (c = CHR 0x27 \<or> c = CHR 0x22)"

definition emits :: "string \<Rightarrow> bool \<Rightarrow> bool" where
  "emits token quoted = (token \<noteq> [] \<or> quoted)"

fun shlex_run :: "lexstate \<Rightarrow> string \<Rightarrow> bool \<Rightarrow> string \<Rightarrow> exn + string list" where
  "shlex_run Between token quoted [] = Inr (if emits token quoted then [token] else [])"
| "shlex_run InWord token quoted [] = Inr (if emits token quoted then [token] else [])"
| "shlex_run (InQuote q) token quoted [] = Inl (ValueError ''No closing quotation'')"
| "shlex_run (Escaped st) token quoted [] = Inl (ValueError ''No escaped character'')"
| "shlex_run Between token quoted (c # cs) =
     (if shlex_whitespace c then
        (if emits token quoted
         then map_sum id ((#) token) (shlex_run Between [] False cs)
         else shlex_run Between token quoted cs)
      else if c = CHR 0x5C then shlex_run (Escaped InWord) token quoted cs
      else if shlex_quote c then shlex_run (InQuote c) token True cs
      else shlex_run InWord [c] quoted cs)"
| "shlex_run InWord token quoted (c # cs) =
     (if shlex_whitespace c then
        (if emits token quoted
         then map_sum id ((#) token) (shlex_run Between [] False cs)
         else shlex_run Between token quoted cs)
      else if shlex_quote c then shlex_run (InQuote c) token True cs
      else if c = CHR 0x5C then shlex_run (Escaped InWord) token quoted cs
      else shlex_run InWord (token @ [c]) quoted cs)"
| "shlex_run (InQuote q) token quoted (c # cs) =
     (if c = q then shlex_run InWord token True cs
      else if c = CHR 0x5C \<and> q = CHR 0x22 then shlex_run (Escaped (InQuote q)) token True cs
      else shlex_run (InQuote q) (token @ [c]) True cs)"
| "shlex_run (Escaped st) token quoted (c # cs) =
     (case st of
        InQuote q \<Rightarrow>
          shlex_run st (if c \<noteq> CHR 0x5C \<and> c \<noteq> q then token @ [CHR 0x5C, c] else token @ [c])
            quoted cs
      | _ \<Rightarrow> shlex_run st (token @ [c]) quoted cs)"

definition shlex_split :: "string \<Rightarrow> exn + string list" where
  "shlex_split s = shlex_run Between [] False s"

text \<open>
  What the claim about \<^verbatim>\<open>push\<close> calls whitespace-separated tokens, written down on
  its own to compare \<^verbatim>\<open>shlex.split\<close> with: the maximal runs of characters that are
  not whitespace (\<open>token\<close> is the run read so far).
\<close>

fun whitespace_tokens :: "string \<Rightarrow> string \<Rightarrow> string list" where
  "whitespace_tokens token [] = (if token = [] then [] else [token])"
| "whitespace_tokens token (c # cs) =
     (if shlex_whitespace c
      then (if token = [] then whitespace_tokens [] cs else token # whitespace_tokens [] cs)
      else whitespace_tokens (token @ [c]) cs)"

subsection \<open>Effects, outcomes and the environment\<close>

text \<open>
  The operations of \<^verbatim>\<open>slipsomat.py\<close> that the shell calls, with the arguments that
  vary (the table, the local storage, the status file and the test page are the objects
  built once by the constructor).
\<close>

datatype op_call =
    Pull
  | PullDefaults
  | Push "string list"
  | Test "string list" "string list"

datatype debugger = Ipdb | Pdb

text \<open>
  The effects. \<open>Print\<close> holds the text written to the terminal, without its line
  ends; the exception and the traceback that \<^verbatim>\<open>handle_exception\<close> prints are events
  of their own. The other events are calls: of \<^verbatim>\<open>readline\<close>, of an operation, of
  the worker, of the constructors in \<^verbatim>\<open>Shell.__init__\<close>, of \<^verbatim>\<open>inquirer.prompt\<close>,
  of a debugger, of the inherited \<^verbatim>\<open>do_help\<close>, and what \<^verbatim>\<open>argparse\<close> prints
  before it leaves the process.
\<close>

datatype event =
    Print string
  | PrintException exn
  | PrintTraceback exn
  | SetHistoryLength nat
  | WriteHistoryFile
  | ReadHistoryFile
  | Invoke op_call
  | WorkerNew
  | WorkerConnect
  | WorkerRestart
  | WorkerClose
  | StatusFileNew
  | LocalStorageNew
  | TableNew
  | TestPageNew
  | Prompt
  | PostMortem debugger
  | HelpShown string
  | ParserOutput

text \<open>
  How a handler ends: it returns (\<^verbatim>\<open>None\<close>, so the command loop goes on), it leaves
  the process through \<^verbatim>\<open>sys.exit\<close> with a status, or an exception propagates out
  of it.
\<close>

datatype outcome = Return | Exit nat | Raise exn

text \<open>
  What the shell reads from outside: the file system (\<^verbatim>\<open>glob\<close>,
  \<^verbatim>\<open>os.path.abspath\<close>, \<^verbatim>\<open>os.path.exists\<close>), whether the optional modules
  could be imported, what the called operation does (it returns, or raises an
  \<^verbatim>\<open>Exception\<close>), what the operator answers to the prompt, whether
  \<^verbatim>\<open>parser.parse_args()\<close> returns or leaves the process (as it does with status 0
  for \<^verbatim>\<open>-h\<close> and with status 2 for any argument it does not know), and whether
  \<^verbatim>\<open>worker.connect()\<close> raises.
\<close>

record env =
  glob :: "string \<Rightarrow> string list"
  abspath :: "string \<Rightarrow> string"
  op_raises :: "op_call \<Rightarrow> exn option"
  readline_present :: bool
  histfile_exists :: bool
  inquirer_usable :: bool
  answer :: string
  ipdb_importable :: bool
  parse_args_exit :: "nat option"
  cfg_exists :: bool
  connect_raises :: "exn option"
  version :: string

text \<open>The shell object: \<^verbatim>\<open>lastcmd\<close> of \<^verbatim>\<open>cmd.Cmd\<close>, and the log of effects.\<close>

record shell =
  lastcmd :: string
  log :: "event list"

definition emit :: "event \<Rightarrow> shell \<Rightarrow> shell" where
  "emit ev s = s\<lparr>log := log s @ [ev]\<rparr>"

text \<open>The calls of operations that a log records, in order.\<close>

fun invocations :: "event list \<Rightarrow> op_call list" where
  "invocations [] = []"
| "invocations (Invoke c # es) = c # invocations es"
| "invocations (e # es) = invocations es"

subsection \<open>The handlers\<close>

definition emptyline :: "shell \<Rightarrow> shell \<times> outcome" where
  "emptyline s = (s, Return)"

definition do_exit :: "shell \<Rightarrow> string \<Rightarrow> shell \<times> outcome" where
  "do_exit s arg = (emit WorkerClose s, Exit 0)"

definition handle_exception :: "env \<Rightarrow> shell \<Rightarrow> exn \<Rightarrow> shell \<times> outcome" where
  "handle_exception env s e =
     (let s1 = emit (PrintTraceback e) (emit (PrintException e) s) in
      if \<not> inquirer_usable env then
        (emit WorkerClose
           (emit (Print ''Please \"pip install inquirer\" if you would like more debug options'') s1),
         Exit 0)
      else
        let s2 = emit Prompt s1 in
        if answer env = ''Debug with ipdb'' then
          (if \<not> ipdb_importable env then
             (emit (Print ''Please run \"pip install ipdb\" to install ipdb'') s2, Exit 1)
           else (emit WorkerClose (emit (PostMortem Ipdb) s2), Exit 0))
        else if answer env = ''Debug with pdb'' then
          (emit WorkerClose (emit (PostMortem Pdb) s2), Exit 0)
        else if answer env = ''Restart browser'' then
          (emit WorkerRestart s2, Return)
        else (emit WorkerClose s2, Exit 0))"

definition execute :: "env \<Rightarrow> shell \<Rightarrow> op_call \<Rightarrow> shell \<times> outcome" where
  "execute env s call =
     (let s1 = (if readline_present env
                then emit WriteHistoryFile (emit (SetHistoryLength 10000) s) else s);
          s2 = emit (Invoke call) s1
      in case op_raises env call of
           None \<Rightarrow> (s2, Return)
         | Some e \<Rightarrow> handle_exception env s2 e)"

definition do_pull :: "env \<Rightarrow> shell \<Rightarrow> string \<Rightarrow> shell \<times> outcome" where
  "do_pull env s arg = execute env s Pull"

definition do_defaults :: "env \<Rightarrow> shell \<Rightarrow> string \<Rightarrow> shell \<times> outcome" where
  "do_defaults env s arg = execute env s PullDefaults"

definition do_push :: "env \<Rightarrow> shell \<Rightarrow> string \<Rightarrow> shell \<times> outcome" where
  "do_push env s arg =
     (case shlex_split arg of
        Inl e \<Rightarrow> (s, Raise e)
      | Inr filenames \<Rightarrow>
          execute env s (Push (map (\<lambda>filename. ''xsl/letters/'' @ filename) filenames)))"

text \<open>
  \<^verbatim>\<open>files, languages = arg.split('@')\<close> unpacks a list of exactly two pieces and
  raises \<^verbatim>\<open>ValueError\<close> on any other; it is reached only when \<open>arg\<close> has an
  \<^verbatim>\<open>'@'\<close>, so the list has at least two.
\<close>

definition unpack2 :: "string list \<Rightarrow> exn + string \<times> string" where
  "unpack2 parts =
     (case parts of
        [a, b] \<Rightarrow> Inr (a, b)
      | _ \<Rightarrow> Inl (ValueError ''too many values to unpack (expected 2)''))"

text \<open>
  Lines 121 to 125 of \<^verbatim>\<open>do_test\<close>: the file pattern and the languages, still as
  one string, that the argument gives.
\<close>

definition test_arg :: "string \<Rightarrow> exn + string \<times> string" where
  "test_arg arg =
     (if CHR ''@'' \<in> set arg then unpack2 (split_on CHR ''@'' arg) else Inr (arg, ''en''))"

definition do_test :: "env \<Rightarrow> shell \<Rightarrow> string \<Rightarrow> shell \<times> outcome" where
  "do_test env s arg =
     (case test_arg arg of
        Inl e \<Rightarrow> (s, Raise e)
      | Inr (files, languages) \<Rightarrow>
          let languages = split_on CHR '','' languages;
              files = glob env (abspath env (os_path_join ''test-data'' files))
          in if length files = 0 then (emit (Print ''Error: No such file'') s, Return)
             else execute env s (Test files languages))"

definition precmd :: "string \<Rightarrow> string" where
  "precmd line = strip line"

subsection \<open>Dispatch: \<^verbatim>\<open>cmd.Cmd.parseline\<close>, \<^verbatim>\<open>onecmd\<close> and \<^verbatim>\<open>cmdloop\<close>\<close>

text \<open>\<^verbatim>\<open>Cmd.identchars\<close>: the ASCII letters, the digits and the underscore.\<close>

definition identchar :: "char \<Rightarrow> bool" where
  "identchar c =
     (let n = (of_char c :: nat)
      in (65 \<le> n \<and> n \<le> 90) \<or> (97 \<le> n \<and> n \<le> 122) \<or> (48 \<le> n \<and> n \<le> 57) \<or> n = 95)"

text \<open>
  \<^verbatim>\<open>parseline\<close> returns the command name and its argument (both \<^verbatim>\<open>None\<close> for an
  empty line, and for a line starting with \<^verbatim>\<open>!\<close> since the class has no
  \<^verbatim>\<open>do_shell\<close>) and the line it parsed.
\<close>

definition parseline :: "string \<Rightarrow> (string \<times> string) option \<times> string" where
  "parseline line0 =
     (let line = strip line0 in
      if line = [] then (None, line)
      else if hd line = CHR ''?'' then
        (let line = ''help '' @ tl line
         in (Some (takeWhile identchar line, strip (dropWhile identchar line)), line))
      else if hd line = CHR ''!'' then (None, line)
      else (Some (takeWhile identchar line, strip (dropWhile identchar line)), line))"

text \<open>
  The handlers that \<^verbatim>\<open>getattr(self, 'do_' + cmd)\<close> finds in the class:
  \<^verbatim>\<open>do_EOF = do_exit\<close>, \<^verbatim>\<open>do_eof = do_EOF\<close> and \<^verbatim>\<open>do_quit = do_exit\<close> are
  the same function object as \<^verbatim>\<open>do_exit\<close>; \<^verbatim>\<open>do_help\<close> is inherited.
\<close>

datatype handler = Do_exit | Do_pull | Do_defaults | Do_push | Do_test | Do_help

definition lookup_handler :: "string \<Rightarrow> handler option" where
  "lookup_handler =
     map_of [(''exit'', Do_exit), (''pull'', Do_pull), (''defaults'', Do_defaults),
             (''push'', Do_push), (''test'', Do_test), (''EOF'', Do_exit),
             (''eof'', Do_exit), (''quit'', Do_exit), (''help'', Do_help)]"

definition do_help :: "shell \<Rightarrow> string \<Rightarrow> shell \<times> outcome" where
  "do_help s arg = (emit (HelpShown arg) s, Return)"

definition default_cmd :: "shell \<Rightarrow> string \<Rightarrow> shell \<times> outcome" where
  "default_cmd s line = (emit (Print (''*** Unknown syntax: '' @ line)) s, Return)"

fun run_handler :: "env \<Rightarrow> shell \<Rightarrow> handler \<Rightarrow> string \<Rightarrow> shell \<times> outcome" where
  "run_handler env s Do_exit arg = do_exit s arg"
| "run_handler env s Do_pull arg = do_pull env s arg"
| "run_handler env s Do_defaults arg = do_defaults env s arg"
| "run_handler env s Do_push arg = do_push env s arg"
| "run_handler env s Do_test arg = do_test env s arg"
| "run_handler env s Do_help arg = do_help s arg"

definition onecmd :: "env \<Rightarrow> shell \<Rightarrow> string \<Rightarrow> shell \<times> outcome" where
  "onecmd env s line0 =
     (case parseline line0 of
        (parsed, line) \<Rightarrow>
          if line = [] then emptyline s
          else (case parsed of
            None \<Rightarrow> default_cmd s line
          | Some (cmd, arg) \<Rightarrow>
              (let s1 = s\<lparr>lastcmd := (if line = ''EOF'' then [] else line)\<rparr> in
               if cmd = [] then default_cmd s1 line
               else (case lookup_handler cmd of
                 None \<Rightarrow> default_cmd s1 line
               | Some h \<Rightarrow> run_handler env s1 h arg))))"

text \<open>
  One turn of the loop of \<^verbatim>\<open>cmdloop\<close>: \<^verbatim>\<open>line = self.precmd(line)\<close>, then
  \<^verbatim>\<open>stop = self.onecmd(line)\<close>; \<^verbatim>\<open>postcmd\<close> is not overridden.
\<close>

definition process_line :: "env \<Rightarrow> shell \<Rightarrow> string \<Rightarrow> shell \<times> outcome" where
  "process_line env s line = onecmd env s (precmd line)"

text \<open>
  The loop reads the lines the operator types; when the input is at its end,
  \<^verbatim>\<open>input\<close> raises \<^verbatim>\<open>EOFError\<close> and the loop takes the line to be \<^verbatim>\<open>'EOF'\<close>.
  No handler returns a true value, so the loop goes on after every handler that returns.
\<close>

fun read_loop :: "env \<Rightarrow> string list \<Rightarrow> shell \<Rightarrow> shell \<times> outcome" where
  "read_loop env [] s = process_line env s ''EOF''"
| "read_loop env (line # lines) s =
     (case process_line env s line of
        (s', Return) \<Rightarrow> read_loop env lines s'
      | r \<Rightarrow> r)"

definition preloop :: "env \<Rightarrow> shell \<Rightarrow> shell" where
  "preloop env s =
     (if readline_present env \<and> histfile_exists env then emit ReadHistoryFile s else s)"

definition cmdloop :: "env \<Rightarrow> string list \<Rightarrow> shell \<Rightarrow> shell \<times> outcome" where
  "cmdloop env lines s =
     read_loop env lines
       (emit (Print ''Welcome to slipsomat. Type help or ? to list commands.'') (preloop env s))"

subsection \<open>Start-up\<close>

text \<open>
  \<^verbatim>\<open>Shell.__init__\<close>: the constructors of the collaborators are taken to return,
  except that \<^verbatim>\<open>worker.connect()\<close> may raise.
\<close>

definition shell_init :: "env \<Rightarrow> shell \<times> outcome" where
  "shell_init env =
     (let s = \<lparr>lastcmd = [],
                log = [Print (''Starting slipsomat '' @ version env), WorkerNew, WorkerConnect]\<rparr>
      in case connect_raises env of
           Some e \<Rightarrow> (s, Raise e)
         | None \<Rightarrow>
             (s\<lparr>log := log s @ [StatusFileNew, LocalStorageNew, Print ''Reading table... '',
                                 TableNew, TestPageNew, Print ''Reading table... DONE'']\<rparr>,
              Return))"

definition main :: "env \<Rightarrow> string list \<Rightarrow> shell \<times> outcome" where
  "main env lines =
     (case parse_args_exit env of
        Some status \<Rightarrow> (\<lparr>lastcmd = [], log = [ParserOutput]\<rparr>, Exit status)
      | None \<Rightarrow>
          if \<not> cfg_exists env then
            (\<lparr>lastcmd = [],
              log = [Print ''No slipsomat.cfg file found in this directory. Exiting.'']\<rparr>,
             Return)
          else (case shell_init env of
                  (s, Return) \<Rightarrow> cmdloop env lines s
                | r \<Rightarrow> r))"

section \<open>The synchronisation core\<close>

text \<open>
  The shell calls \<^verbatim>\<open>pull\<close>, \<^verbatim>\<open>pull_defaults\<close> and \<^verbatim>\<open>push\<close> of the module
  \<^verbatim>\<open>slipsomat.slipsomat\<close>, whose source is not part of the repository excerpt; only
  the caller \<^verbatim>\<open>shell.py\<close> is. The definitions of this section follow sections 3,
  4 and 7 of the specification instead. Contents are of a type \<open>'b\<close>, fingerprints
  of a type \<open>'f\<close>, and the fingerprint function \<open>fp\<close> is a parameter: the results
  hold for every deterministic fingerprint function.
\<close>

type_synonym path = string

text \<open>Modelled from the spec: the error kinds of section 7 (the module that raises them is missing).\<close>

datatype sync_error = NotFound | RemoteNotFound | RemoteRejected | RenderFailed | IOError

text \<open>
  Modelled from the spec: the LocalRepository of section 4.2 (class \<^verbatim>\<open>LocalStorage\<close>,
  missing). \<open>files\<close> is the tracked tree; \<open>write_fails\<close> tells for which paths
  a write fails with \<open>IOError\<close>.
\<close>

record 'b local_repo =
  files :: "path \<rightharpoonup> 'b"
  write_fails :: "path \<Rightarrow> bool"

text \<open>Modelled from the spec: \<^verbatim>\<open>fingerprintOf(path)\<close> of section 4.2, the fingerprint or absent.\<close>

definition fingerprintOf :: "('b \<Rightarrow> 'f) \<Rightarrow> 'b local_repo \<Rightarrow> path \<Rightarrow> 'f option" where
  "fingerprintOf fp l p = map_option fp (files l p)"

text \<open>Modelled from the spec: \<^verbatim>\<open>read(path)\<close> of section 4.2, which fails with \<open>NotFound\<close>.\<close>

definition read_local :: "'b local_repo \<Rightarrow> path \<Rightarrow> sync_error + 'b" where
  "read_local l p = (case files l p of None \<Rightarrow> Inl NotFound | Some b \<Rightarrow> Inr b)"

text \<open>Modelled from the spec: \<^verbatim>\<open>write(path, bytes)\<close> of section 4.2, which fails with \<open>IOError\<close>.\<close>

definition write_local :: "'b local_repo \<Rightarrow> path \<Rightarrow> 'b \<Rightarrow> sync_error + 'b local_repo" where
  "write_local l p b =
     (if write_fails l p then Inl IOError else Inr (l\<lparr>files := (files l)(p \<mapsto> b)\<rparr>))"

text \<open>
  Modelled from the spec: the RemoteTemplateStore of section 4.3 (class
  \<^verbatim>\<open>TemplateConfigurationTable\<close>, missing). \<open>entries\<close> is the remote collection in
  listing order, keyed by path; \<open>rejects\<close> tells which content the service refuses
  for which path. \<open>put\<close> overwrites the content of an entry, or creates an entry
  that is not a vendor default.
\<close>

record 'b remote_entry =
  content :: 'b
  isDefault :: bool

text \<open>Modelled from the spec: the remote collection and what the service rejects (section 4.3).\<close>

record 'b remote_store =
  entries :: "(path \<times> 'b remote_entry) list"
  rejects :: "path \<Rightarrow> 'b \<Rightarrow> bool"

text \<open>Modelled from the spec: \<^verbatim>\<open>list()\<close> of section 4.3: path, fingerprint and default flag of every entry.\<close>

definition list_remote :: "('b \<Rightarrow> 'f) \<Rightarrow> 'b remote_store \<Rightarrow> (path \<times> 'f \<times> bool) list" where
  "list_remote fp r = map (\<lambda>(p, e). (p, fp (content e), isDefault e)) (entries r)"

text \<open>Modelled from the spec: the \<^verbatim>\<open>remoteFingerprint\<close> of section 3, the fingerprint of the entry stored remotely or absent.\<close>

definition remoteFingerprint :: "('b \<Rightarrow> 'f) \<Rightarrow> 'b remote_store \<Rightarrow> path \<Rightarrow> 'f option" where
  "remoteFingerprint fp r p = map_option (\<lambda>e. fp (content e)) (map_of (entries r) p)"

text \<open>Modelled from the spec: \<^verbatim>\<open>fetch(path)\<close> of section 4.3, which fails with \<open>RemoteNotFound\<close>.\<close>

definition fetch_remote :: "'b remote_store \<Rightarrow> path \<Rightarrow> sync_error + 'b" where
  "fetch_remote r p =
     (case map_of (entries r) p of None \<Rightarrow> Inl RemoteNotFound | Some e \<Rightarrow> Inr (content e))"

text \<open>Modelled from the spec: \<^verbatim>\<open>put(path, bytes)\<close> of section 4.3, which fails with \<open>RemoteRejected\<close>.\<close>

definition put_remote :: "'b remote_store \<Rightarrow> path \<Rightarrow> 'b \<Rightarrow> sync_error + 'b remote_store" where
  "put_remote r p b =
     (if rejects r p b then Inl RemoteRejected
      else Inr (r\<lparr>entries :=
                  AList.update p
                    (case map_of (entries r) p of
                       None \<Rightarrow> \<lparr>content = b, isDefault = False\<rparr>
                     | Some e \<Rightarrow> e\<lparr>content := b\<rparr>)
                    (entries r)\<rparr>))"

text \<open>
  Modelled from the spec: the StatusLedger of section 4.1 (class \<^verbatim>\<open>StatusFile\<close>,
  missing) is the map \<open>ledger\<close>; the three collaborators that an operation receives
  make up the state it works on.
\<close>

record ('b, 'f) sync_state =
  ledger :: "path \<rightharpoonup> 'f"
  localRepo :: "'b local_repo"
  remoteStore :: "'b remote_store"

text \<open>
  Modelled from the spec: the derived entry states of section 3, each as the spec words
  it, over the local, the remote and the ledger fingerprint (\<open>None\<close> is
  \<^verbatim>\<open>absent\<close>).
\<close>

definition unchanged :: "'f option \<Rightarrow> 'f option \<Rightarrow> 'f option \<Rightarrow> bool" where
  "unchanged l r g = (l = r \<and> r = g)"

text \<open>Modelled from the spec: \<^verbatim>\<open>locallyModified\<close> (section 3).\<close>

definition locallyModified :: "'f option \<Rightarrow> 'f option \<Rightarrow> 'f option \<Rightarrow> bool" where
  "locallyModified l r g = (l \<noteq> g \<and> r = g)"

text \<open>Modelled from the spec: \<^verbatim>\<open>remotelyModified\<close> (section 3).\<close>

definition remotelyModified :: "'f option \<Rightarrow> 'f option \<Rightarrow> 'f option \<Rightarrow> bool" where
  "remotelyModified l r g = (r \<noteq> g \<and> l = g)"

text \<open>Modelled from the spec: \<^verbatim>\<open>conflicted\<close> (section 3).\<close>

definition conflicted :: "'f option \<Rightarrow> 'f option \<Rightarrow> 'f option \<Rightarrow> bool" where
  "conflicted l r g = (l \<noteq> g \<and> r \<noteq> g \<and> l \<noteq> r)"

text \<open>Modelled from the spec: \<^verbatim>\<open>newDefault\<close> (section 3).\<close>

definition newDefault :: "'f option \<Rightarrow> 'f option \<Rightarrow> 'f option \<Rightarrow> bool" where
  "newDefault l r g = (g = None \<and> r \<noteq> None \<and> l = None)"

text \<open>
  Modelled from the spec: the per-entry outcomes and the conflict report of sections 6
  and 7. What an operation reports: an entry pulled or pushed (with the fingerprint recorded in
  the ledger), a conflict (path, local fingerprint, remote fingerprint), or the failure
  of the apply step of an entry.
\<close>

datatype 'f report =
    Pulled path 'f
  | Pushed path 'f
  | Conflict path "'f option" "'f option"
  | Failed path sync_error

text \<open>
  An operation has left a path untouched when the ledger entry, the local content and the
  remote entry of the path are what they were.
\<close>

definition untouched :: "path \<Rightarrow> ('b, 'f) sync_state \<Rightarrow> ('b, 'f) sync_state \<Rightarrow> bool" where
  "untouched p s s' =
     (ledger s' p = ledger s p
      \<and> files (localRepo s') p = files (localRepo s) p
      \<and> map_of (entries (remoteStore s')) p = map_of (entries (remoteStore s)) p)"

text \<open>
  A fingerprint is true on both sides of a path, and recorded, when it is the ledger, the
  local and the remote fingerprint of the path.
\<close>

definition agreed :: "('b \<Rightarrow> 'f) \<Rightarrow> path \<Rightarrow> 'f \<Rightarrow> ('b, 'f) sync_state \<Rightarrow> bool" where
  "agreed fp p f s =
     (ledger s p = Some f
      \<and> fingerprintOf fp (localRepo s) p = Some f
      \<and> remoteFingerprint fp (remoteStore s) p = Some f)"

fun report_path :: "'f report \<Rightarrow> path" where
  "report_path (Pulled p f) = p"
| "report_path (Pushed p f) = p"
| "report_path (Conflict p l r) = p"
| "report_path (Failed p e) = p"

text \<open>
  Modelled from the spec: the pull algorithm of section 4.4 for one listed remote entry
  (function \<^verbatim>\<open>pull\<close>, missing). Remotely modified and new entries are fetched,
  written and recorded; a conflict is reported; nothing is done for any other entry.
\<close>

definition pull_entry ::
  "('b \<Rightarrow> 'f) \<Rightarrow> path \<times> 'f \<times> bool \<Rightarrow> ('b, 'f) sync_state \<Rightarrow> 'f report list \<times> ('b, 'f) sync_state"
where
  "pull_entry fp x s =
     (case x of (p, rf, d) \<Rightarrow>
        let l = fingerprintOf fp (localRepo s) p; r = Some rf; g = ledger s p in
        if remotelyModified l r g \<or> newDefault l r g then
          (case fetch_remote (remoteStore s) p of
             Inl err \<Rightarrow> ([Failed p err], s)
           | Inr bytes \<Rightarrow>
               (case write_local (localRepo s) p bytes of
                  Inl err \<Rightarrow> ([Failed p err], s)
                | Inr l' \<Rightarrow> ([Pulled p rf], s\<lparr>localRepo := l', ledger := (ledger s)(p \<mapsto> rf)\<rparr>)))
        else if conflicted l r g then ([Conflict p l r], s)
        else ([], s))"

text \<open>
  Modelled from the spec: pull applies an entry (fetches it, writes it, records it) when
  the entry is remotely modified or new, judged on the local fingerprint, the listed
  remote fingerprint and the ledger fingerprint of its path (section 4.4).
\<close>

definition pull_is_due :: "('b \<Rightarrow> 'f) \<Rightarrow> ('b, 'f) sync_state \<Rightarrow> path \<Rightarrow> 'f \<Rightarrow> bool" where
  "pull_is_due fp s p rf =
     (remotelyModified (fingerprintOf fp (localRepo s) p) (Some rf) (ledger s p)
      \<or> newDefault (fingerprintOf fp (localRepo s) p) (Some rf) (ledger s p))"

text \<open>Modelled from the spec: the entries are processed one at a time, each applied and recorded before the next (section 4.4).\<close>

fun pull_all ::
  "('b \<Rightarrow> 'f) \<Rightarrow> (path \<times> 'f \<times> bool) list \<Rightarrow> ('b, 'f) sync_state \<Rightarrow> 'f report list \<times> ('b, 'f) sync_state"
where
  "pull_all fp [] s = ([], s)"
| "pull_all fp (x # xs) s =
     (case pull_entry fp x s of
        (r1, s1) \<Rightarrow> (case pull_all fp xs s1 of (r2, s2) \<Rightarrow> (r1 @ r2, s2)))"

text \<open>Modelled from the spec: pull works on the remote entries that are not vendor defaults.\<close>

definition pull :: "('b \<Rightarrow> 'f) \<Rightarrow> ('b, 'f) sync_state \<Rightarrow> 'f report list \<times> ('b, 'f) sync_state" where
  "pull fp s = pull_all fp (filter (\<lambda>(p, rf, d). \<not> d) (list_remote fp (remoteStore s))) s"

text \<open>Modelled from the spec: pullDefaults is the same algorithm over the vendor defaults.\<close>

definition pullDefaults ::
  "('b \<Rightarrow> 'f) \<Rightarrow> ('b, 'f) sync_state \<Rightarrow> 'f report list \<times> ('b, 'f) sync_state" where
  "pullDefaults fp s = pull_all fp (filter (\<lambda>(p, rf, d). d) (list_remote fp (remoteStore s))) s"

text \<open>
  Modelled from the spec: the push algorithm of section 4.4 for one selected path
  (function \<^verbatim>\<open>push\<close>, missing), its cases in the order of the spec: a conflict is
  refused; a locally modified entry, or one with no remote entry, is read and put, and
  recorded on success; an unchanged entry is left; a remotely modified one is reported as
  a conflict; nothing is done for any other entry.
\<close>

definition push_entry ::
  "('b \<Rightarrow> 'f) \<Rightarrow> path \<Rightarrow> ('b, 'f) sync_state \<Rightarrow> 'f report list \<times> ('b, 'f) sync_state"
where
  "push_entry fp p s =
     (let l = fingerprintOf fp (localRepo s) p;
          r = remoteFingerprint fp (remoteStore s) p;
          g = ledger s p
      in
        if conflicted l r g then ([Conflict p l r], s)
        else if locallyModified l r g \<or> r = None then
          (case read_local (localRepo s) p of
             Inl err \<Rightarrow> ([Failed p err], s)
           | Inr bytes \<Rightarrow>
               (case put_remote (remoteStore s) p bytes of
                  Inl err \<Rightarrow> ([Failed p err], s)
                | Inr r' \<Rightarrow>
                    ([Pushed p (fp bytes)],
                     s\<lparr>remoteStore := r', ledger := (ledger s)(p \<mapsto> fp bytes)\<rparr>)))
        else if unchanged l r g then ([], s)
        else if remotelyModified l r g then ([Conflict p l r], s)
        else ([], s))"

text \<open>
  Modelled from the spec: push applies a path (reads it, puts it, records it) when the
  entry is not conflicted and is locally modified or has no remote entry (section 4.4).
\<close>

definition push_is_due :: "('b \<Rightarrow> 'f) \<Rightarrow> ('b, 'f) sync_state \<Rightarrow> path \<Rightarrow> bool" where
  "push_is_due fp s p =
     (\<not> conflicted (fingerprintOf fp (localRepo s) p)
          (remoteFingerprint fp (remoteStore s) p) (ledger s p)
      \<and> (locallyModified (fingerprintOf fp (localRepo s) p)
            (remoteFingerprint fp (remoteStore s) p) (ledger s p)
           \<or> remoteFingerprint fp (remoteStore s) p = None))"

text \<open>Modelled from the spec: push works on the selected paths, one at a time (section 4.4).\<close>

fun push ::
  "('b \<Rightarrow> 'f) \<Rightarrow> ('b, 'f) sync_state \<Rightarrow> path list \<Rightarrow> 'f report list \<times> ('b, 'f) sync_state"
where
  "push fp s [] = ([], s)"
| "push fp s (p # ps) =
     (case push_entry fp p s of
        (r1, s1) \<Rightarrow> (case push fp s1 ps of (r2, s2) \<Rightarrow> (r1 @ r2, s2)))"

section \<open>Concrete inputs\<close>

text \<open>
  An operator in \<^verbatim>\<open>/home/op\<close> whose \<^verbatim>\<open>test-data\<close> directory holds the one file
  \<^verbatim>\<open>a.xml\<close>; every operation returns.
\<close>

definition example_env :: env where
  "example_env =
     \<lparr>glob = (\<lambda>p. if p = ''/home/op/test-data/a.xml'' then [p] else []),
      abspath = (\<lambda>p. if p \<noteq> [] \<and> hd p = CHR ''/'' then p else ''/home/op/'' @ p),
      op_raises = (\<lambda>c. None),
      readline_present = True,
      histfile_exists = False,
      inquirer_usable = True,
      answer = ''Exit'',
      ipdb_importable = False,
      parse_args_exit = None,
      cfg_exists = True,
      connect_raises = None,
      version = ''0.3.1''\<rparr>"

text \<open>The same operator, with a file \<^verbatim>\<open>/tmp/b.xml\<close> outside the working directory.\<close>

definition outside_env :: env where
  "outside_env = example_env\<lparr>glob := (\<lambda>p. if p = ''/tmp/b.xml'' then [p] else [])\<rparr>"

text \<open>
  The operator starts the program in a directory without \<^verbatim>\<open>slipsomat.cfg\<close>: with
  no argument, and with an argument that the parser does not know
  (\<^verbatim>\<open>slipsomat status\<close>), on which \<^verbatim>\<open>parse_args\<close> leaves with status 2.
\<close>

definition no_cfg_env :: env where
  "no_cfg_env = example_env\<lparr>cfg_exists := False\<rparr>"

definition bad_args_env :: env where
  "bad_args_env = example_env\<lparr>cfg_exists := False, parse_args_exit := Some 2\<rparr>"

text \<open>
  Every operation fails; the operator picks \<^verbatim>\<open>Debug with ipdb\<close> at the prompt, and
  \<^verbatim>\<open>ipdb\<close> is not installed.
\<close>

definition ipdb_missing_env :: env where
  "ipdb_missing_env =
     example_env\<lparr>op_raises := (\<lambda>c. Some (OperationError ''session lost'')),
                  answer := ''Debug with ipdb''\<rparr>"

text \<open>A shell that has just run \<^verbatim>\<open>pull\<close>.\<close>

definition example_shell :: shell where
  "example_shell = \<lparr>lastcmd = ''pull'', log = [Invoke Pull]\<rparr>"

text \<open>
  For the synchronisation core: contents are strings and the fingerprint of a content is
  the content itself.
\<close>

definition content_fp :: "string \<Rightarrow> string" where
  "content_fp b = b"

text \<open>
  One tracked path, last synchronised at \<^verbatim>\<open>v0\<close>, since then edited locally to
  \<^verbatim>\<open>v1\<close> and remotely to \<^verbatim>\<open>v2\<close>; the remote entry is a custom one, or a
  vendor default.
\<close>

definition conflict_state :: "bool \<Rightarrow> (string, string) sync_state" where
  "conflict_state dflt =
     \<lparr>ledger = [''overdue.xsl'' \<mapsto> ''v0''],
      localRepo = \<lparr>files = [''overdue.xsl'' \<mapsto> ''v1''], write_fails = (\<lambda>p. False)\<rparr>,
      remoteStore = \<lparr>entries = [(''overdue.xsl'', \<lparr>content = ''v2'', isDefault = dflt\<rparr>)],
                     rejects = (\<lambda>p b. False)\<rparr>\<rparr>"

text \<open>
  Four tracked paths, all synchronised at \<^verbatim>\<open>v0\<close>: \<^verbatim>\<open>a.xsl\<close> and
  \<^verbatim>\<open>b.xsl\<close> have since changed remotely, and \<^verbatim>\<open>b.xsl\<close> cannot be written
  locally; \<^verbatim>\<open>c.xsl\<close> and \<^verbatim>\<open>d.xsl\<close> have changed locally, and the service
  rejects what is put to \<^verbatim>\<open>d.xsl\<close>.
\<close>

definition drift_state :: "(string, string) sync_state" where
  "drift_state =
     \<lparr>ledger = [''a.xsl'' \<mapsto> ''v0'', ''b.xsl'' \<mapsto> ''v0'', ''c.xsl'' \<mapsto> ''v0'',
                ''d.xsl'' \<mapsto> ''v0''],
      localRepo = \<lparr>files = [''a.xsl'' \<mapsto> ''v0'', ''b.xsl'' \<mapsto> ''v0'', ''c.xsl'' \<mapsto> ''v1'',
                             ''d.xsl'' \<mapsto> ''v1''],
                   write_fails = (\<lambda>p. p = ''b.xsl'')\<rparr>,
      remoteStore = \<lparr>entries = [(''a.xsl'', \<lparr>content = ''v2'', isDefault = False\<rparr>),
                                (''b.xsl'', \<lparr>content = ''v2'', isDefault = False\<rparr>),
                                (''c.xsl'', \<lparr>content = ''v0'', isDefault = False\<rparr>),
                                (''d.xsl'', \<lparr>content = ''v0'', isDefault = False\<rparr>)],
                     rejects = (\<lambda>p b. p = ''d.xsl'')\<rparr>\<rparr>"

section \<open>Properties of the shell\<close>

subsection \<open>Stripping\<close>

lemma strip_decomp:
  "\<exists>pre post. line = pre @ strip line @ post
     \<and> (\<forall>c\<in>set pre. isspace c) \<and> (\<forall>c\<in>set post. isspace c)"
proof -
  define d where "d = dropWhile isspace line"
  have l: "line = takeWhile isspace line @ d"
    by (simp add: d_def)
  have "rev (rev d) = rev (takeWhile isspace (rev d) @ dropWhile isspace (rev d))"
    by (simp only: takeWhile_dropWhile_id)
  then have "d = rev (dropWhile isspace (rev d)) @ rev (takeWhile isspace (rev d))"
    by (simp only: rev_append rev_rev_ident)
  then have d: "d = strip line @ rev (takeWhile isspace (rev d))"
    by (simp only: strip_def d_def)
  have "line = takeWhile isspace line @ strip line @ rev (takeWhile isspace (rev d))"
    using l d by simp
  moreover have "\<forall>c\<in>set (takeWhile isspace line). isspace c"
    by (auto dest: set_takeWhileD)
  moreover have "\<forall>c\<in>set (rev (takeWhile isspace (rev d))). isspace c"
    by (auto dest: set_takeWhileD)
  ultimately show ?thesis by blast
qed

lemma hd_strip: "strip s \<noteq> [] \<Longrightarrow> \<not> isspace (hd (strip s))"
  by (metis dropWhile_eq_self_iff hd_dropWhile last_appendR last_rev
    rev.simps(1) rev_swap strip_def takeWhile_dropWhile_id)

lemma last_strip: "strip s \<noteq> [] \<Longrightarrow> \<not> isspace (last (strip s))"
  by (metis hd_dropWhile hd_rev rev.simps(1) rev_rev_ident strip_def)

lemma strip_strip: "strip (strip s) = strip s"
proof -
  have "dropWhile isspace (strip s) = strip s"
    using hd_strip [of s] by (cases "strip s = []") (simp_all add: dropWhile_eq_self_iff)
  then have "strip (strip s) = rev (dropWhile isspace (rev (strip s)))"
    by (simp add: strip_def)
  also have "\<dots> = strip s"
    by (simp add: strip_def dropWhile_idem)
  finally show ?thesis .
qed

lemma strip_Nil: "strip [] = []"
  by (simp add: strip_def)

lemma strip_blank:
  assumes "\<forall>c\<in>set line. isspace c"
  shows "strip line = []"
proof (rule ccontr)
  assume n: "strip line \<noteq> []"
  obtain pre post where d: "line = pre @ strip line @ post"
    using strip_decomp [of line] by blast
  have "hd (strip line) \<in> set (strip line)"
    using n by (rule hd_in_set)
  then have "hd (strip line) \<in> set (pre @ strip line @ post)"
    by simp
  then have "hd (strip line) \<in> set line"
    using d by simp
  then have "isspace (hd (strip line))"
    using assms by blast
  with hd_strip [OF n] show False by blast
qed

text \<open>
  Claim C10. The loop hands \<open>onecmd\<close> the line that \<open>precmd\<close> returns, and
  \<open>precmd\<close> returns the input line without its leading and trailing whitespace: the
  input is that line between two runs of whitespace, the line neither starts nor ends
  with whitespace, and nothing is left of an input of whitespace only. When nothing is
  left, the turn ends with the shell as it was (the same \<open>lastcmd\<close>, nothing added to
  the log: no command ran, nothing was printed, the last command was not run again) and
  the loop goes on.
\<close>

theorem blank_line_is_ignored:
  "process_line env s line = onecmd env s (precmd line)
   \<and> (\<exists>pre post. line = pre @ precmd line @ post
         \<and> (\<forall>c\<in>set pre. isspace c) \<and> (\<forall>c\<in>set post. isspace c))
   \<and> (precmd line \<noteq> [] \<longrightarrow> \<not> isspace (hd (precmd line)) \<and> \<not> isspace (last (precmd line)))
   \<and> ((\<forall>c\<in>set line. isspace c) \<longrightarrow> precmd line = [])
   \<and> (precmd line = [] \<longrightarrow> process_line env s line = (s, Return))"
proof (intro conjI impI)
  show "process_line env s line = onecmd env s (precmd line)"
    by (simp only: process_line_def)
  show "\<exists>pre post. line = pre @ precmd line @ post
         \<and> (\<forall>c\<in>set pre. isspace c) \<and> (\<forall>c\<in>set post. isspace c)"
    unfolding precmd_def by (rule strip_decomp)
  {
    assume "precmd line \<noteq> []"
    then have n: "strip line \<noteq> []" by (simp add: precmd_def)
    show "\<not> isspace (hd (precmd line))"
      unfolding precmd_def using n by (rule hd_strip)
    show "\<not> isspace (last (precmd line))"
      unfolding precmd_def using n by (rule last_strip)
  }
  {
    assume "\<forall>c\<in>set line. isspace c"
    then show "precmd line = []"
      unfolding precmd_def by (rule strip_blank)
  }
  {
    assume "precmd line = []"
    then show "process_line env s line = (s, Return)"
      by (simp add: process_line_def onecmd_def parseline_def strip_Nil emptyline_def)
  }
qed

theorem blank_line_is_ignored_witness:
  "precmd [CHR 0x20, CHR 0x20, CHR ''p'', CHR ''u'', CHR ''l'', CHR ''l'', CHR 0x09] = ''pull''
   \<and> precmd [CHR 0x20, CHR 0xA0, CHR 0x85, CHR 0x09] = []
   \<and> process_line example_env example_shell [CHR 0x20, CHR 0xA0, CHR 0x85, CHR 0x09] =
       (example_shell, Return)"
proof -
  note t = blank_line_is_ignored [of example_env example_shell
      "[CHR 0x20, CHR 0xA0, CHR 0x85, CHR 0x09]"]
  have b: "\<forall>c\<in>set [CHR 0x20, CHR 0xA0, CHR 0x85, CHR 0x09]. isspace c"
    by (simp add: isspace_def)
  have e: "precmd [CHR 0x20, CHR 0xA0, CHR 0x85, CHR 0x09] = []"
    using t [THEN conjunct2, THEN conjunct2, THEN conjunct2, THEN conjunct1, THEN mp, OF b] .
  have r: "process_line example_env example_shell [CHR 0x20, CHR 0xA0, CHR 0x85, CHR 0x09] =
       (example_shell, Return)"
    using t [THEN conjunct2, THEN conjunct2, THEN conjunct2, THEN conjunct2, THEN mp, OF e] .
  have p: "precmd [CHR 0x20, CHR 0x20, CHR ''p'', CHR ''u'', CHR ''l'', CHR ''l'', CHR 0x09] = ''pull''"
    by code_simp
  from p e r show ?thesis by blast
qed

subsection \<open>Splitting, tokens and the calls of operations\<close>

lemma invocations_append: "invocations (xs @ ys) = invocations xs @ invocations ys"
  by (induction xs rule: invocations.induct) simp_all

lemma split_on_not_Nil: "split_on c s \<noteq> []"
  by (induction s) simp_all

lemma split_on_absent: "c \<notin> set s \<Longrightarrow> split_on c s = [s]"
  by (induction s) auto

lemma split_on_first: "c \<notin> set pre \<Longrightarrow> split_on c (pre @ c # rest) = pre # split_on c rest"
  by (induction pre) auto

lemma split_on_pieces: "w \<in> set (split_on c s) \<Longrightarrow> c \<notin> set w"
proof (induction s arbitrary: w)
  case Nil
  then show ?case by simp
next
  case (Cons x xs)
  have ne: "split_on c xs \<noteq> []" by (rule split_on_not_Nil)
  show ?case
  proof (cases "x = c")
    case True
    with Cons show ?thesis by auto
  next
    case False
    with Cons.prems have "w = x # hd (split_on c xs) \<or> w \<in> set (tl (split_on c xs))"
      by simp
    then show ?thesis
    proof
      assume "w = x # hd (split_on c xs)"
      moreover have "c \<notin> set (hd (split_on c xs))"
        using Cons.IH [of "hd (split_on c xs)"] ne by simp
      ultimately show ?thesis using False by simp
    next
      assume "w \<in> set (tl (split_on c xs))"
      then have "w \<in> set (split_on c xs)" using ne by (auto dest: list.set_sel(2))
      then show ?thesis by (rule Cons.IH)
    qed
  qed
qed

lemma split_on_rejoin: "concat (map ((#) c) (split_on c s)) = c # s"
proof (induction s)
  case Nil
  show ?case by simp
next
  case (Cons x xs)
  have ne: "split_on c xs \<noteq> []" by (rule split_on_not_Nil)
  then obtain w ws where e: "split_on c xs = w # ws" by (cases "split_on c xs") auto
  with Cons show ?case by auto
qed

lemma test_arg_plain: "CHR ''@'' \<notin> set arg \<Longrightarrow> test_arg arg = Inr (arg, ''en'')"
  by (simp add: test_arg_def)

lemma test_arg_one:
  "CHR ''@'' \<notin> set pre \<Longrightarrow> CHR ''@'' \<notin> set post \<Longrightarrow>
     test_arg (pre @ ''@'' @ post) = Inr (pre, post)"
  by (simp add: test_arg_def split_on_first split_on_absent unpack2_def)

lemma execute_invocations:
  "invocations (log (fst (execute env s call))) = invocations (log s) @ [call]"
  by (auto simp: execute_def handle_exception_def emit_def Let_def invocations_append
      split: option.splits)

lemma execute_log:
  "\<exists>evs. log (fst (execute env s call)) = log s @ evs"
  by (auto simp: execute_def handle_exception_def emit_def Let_def
      split: option.splits)

lemma shlex_run_plain:
  "\<forall>c\<in>set cs. \<not> shlex_quote c \<and> c \<noteq> CHR 0x5C \<Longrightarrow>
     shlex_run Between [] False cs = Inr (whitespace_tokens [] cs)
     \<and> shlex_run InWord token False cs = Inr (whitespace_tokens token cs)"
proof (induction cs arbitrary: token)
  case Nil
  show ?case by (simp add: emits_def)
next
  case (Cons c cs)
  then have ih: "\<And>t. shlex_run Between [] False cs = Inr (whitespace_tokens [] cs)
     \<and> shlex_run InWord t False cs = Inr (whitespace_tokens t cs)"
    by simp
  from Cons.prems have c: "\<not> shlex_quote c" "c \<noteq> CHR 0x5C" by simp_all
  show ?case using c ih by (simp add: emits_def)
qed

lemma shlex_split_plain:
  "\<forall>c\<in>set arg. \<not> shlex_quote c \<and> c \<noteq> CHR 0x5C \<Longrightarrow>
     shlex_split arg = Inr (whitespace_tokens [] arg)"
  by (simp add: shlex_split_def shlex_run_plain)

subsection \<open>The handlers of \<^verbatim>\<open>test\<close> and \<^verbatim>\<open>push\<close>\<close>



lemma whitespace_tokens_blank:
  "\<forall>c\<in>set cs. shlex_whitespace c \<Longrightarrow> whitespace_tokens [] cs = []"
  by (induction cs) simp_all

lemma whitespace_not_special: "shlex_whitespace c \<Longrightarrow> \<not> shlex_quote c \<and> c \<noteq> CHR 0x5C"
  unfolding shlex_whitespace_def shlex_quote_def by (elim insertE emptyE) simp_all

lemma shlex_split_blank:
  assumes "\<forall>c\<in>set arg. shlex_whitespace c"
  shows "shlex_split arg = Inr []"
proof -
  have "\<forall>c\<in>set arg. \<not> shlex_quote c \<and> c \<noteq> CHR 0x5C"
    using assms whitespace_not_special by blast
  then have "shlex_split arg = Inr (whitespace_tokens [] arg)"
    by (rule shlex_split_plain)
  with assms show ?thesis
    by (simp only: whitespace_tokens_blank)
qed

lemma do_push_tokens:
  assumes "shlex_split arg = Inr tokens"
  shows "do_push env s arg =
     execute env s (Push (map (\<lambda>filename. ''xsl/letters/'' @ filename) tokens))"
  by (simp only: do_push_def assms sum.case)

text \<open>
  Claim C5. Every token that \<^verbatim>\<open>shlex.split\<close> returns for the argument of
  \<^verbatim>\<open>push\<close> is prefixed with \<^verbatim>\<open>xsl/letters/\<close>, and the list of these paths, in
  order, is what the one call of the push operation receives. For an argument without
  quote characters and backslashes the tokens are the whitespace-separated ones. With no
  token (an empty or blank argument) the operation receives the empty list.
\<close>

theorem push_arguments:
  "(shlex_split arg = Inr tokens \<longrightarrow>
      do_push env s arg = execute env s (Push (map (\<lambda>filename. ''xsl/letters/'' @ filename) tokens))
      \<and> invocations (log (fst (do_push env s arg))) =
          invocations (log s) @ [Push (map (\<lambda>filename. ''xsl/letters/'' @ filename) tokens)])
   \<and> ((\<forall>c\<in>set arg. \<not> shlex_quote c \<and> c \<noteq> CHR 0x5C) \<longrightarrow>
        shlex_split arg = Inr (whitespace_tokens [] arg))
   \<and> ((\<forall>c\<in>set arg. shlex_whitespace c) \<longrightarrow>
        invocations (log (fst (do_push env s arg))) = invocations (log s) @ [Push []])"
proof (intro conjI impI)
  assume t: "shlex_split arg = Inr tokens"
  then show e: "do_push env s arg =
      execute env s (Push (map (\<lambda>filename. ''xsl/letters/'' @ filename) tokens))"
    by (rule do_push_tokens)
  show "invocations (log (fst (do_push env s arg))) =
      invocations (log s) @ [Push (map (\<lambda>filename. ''xsl/letters/'' @ filename) tokens)]"
    by (simp only: e execute_invocations)
next
  assume "\<forall>c\<in>set arg. \<not> shlex_quote c \<and> c \<noteq> CHR 0x5C"
  then show "shlex_split arg = Inr (whitespace_tokens [] arg)"
    by (rule shlex_split_plain)
next
  assume "\<forall>c\<in>set arg. shlex_whitespace c"
  then have "shlex_split arg = Inr []"
    by (rule shlex_split_blank)
  then have "do_push env s arg = execute env s (Push [])"
    using do_push_tokens [of arg "[]" env s] by (simp only: list.map)
  then show "invocations (log (fst (do_push env s arg))) = invocations (log s) @ [Push []]"
    by (simp only: execute_invocations)
qed

theorem push_arguments_witness:
  "shlex_split ''a.xsl  sub/b.xsl'' = Inr [''a.xsl'', ''sub/b.xsl'']
   \<and> invocations (log (fst (do_push example_env example_shell ''a.xsl  sub/b.xsl''))) =
       invocations (log example_shell) @ [Push [''xsl/letters/a.xsl'', ''xsl/letters/sub/b.xsl'']]
   \<and> whitespace_tokens [] ''a.xsl  sub/b.xsl'' = [''a.xsl'', ''sub/b.xsl'']
   \<and> invocations (log (fst (do_push example_env example_shell ''  ''))) =
       invocations (log example_shell) @ [Push []]"
proof -
  have t: "shlex_split ''a.xsl  sub/b.xsl'' = Inr [''a.xsl'', ''sub/b.xsl'']"
    by code_simp
  have q: "\<forall>c\<in>set ''a.xsl  sub/b.xsl''. \<not> shlex_quote c \<and> c \<noteq> CHR 0x5C"
    by code_simp
  have w: "whitespace_tokens [] ''a.xsl  sub/b.xsl'' = [''a.xsl'', ''sub/b.xsl'']"
    by code_simp
  have b: "\<forall>c\<in>set ''  ''. shlex_whitespace c"
    by code_simp
  note p = push_arguments [of "''a.xsl  sub/b.xsl''" "[''a.xsl'', ''sub/b.xsl'']"
      example_env example_shell]
  note p0 = push_arguments [of "''  ''" "[]" example_env example_shell]
  have 1: "invocations (log (fst (do_push example_env example_shell ''a.xsl  sub/b.xsl''))) =
       invocations (log example_shell) @ [Push [''xsl/letters/a.xsl'', ''xsl/letters/sub/b.xsl'']]"
    using p [THEN conjunct1, THEN mp, OF t, THEN conjunct2]
    by (simp only: list.map append.simps)
  have 2: "invocations (log (fst (do_push example_env example_shell ''  ''))) =
       invocations (log example_shell) @ [Push []]"
    using p0 [THEN conjunct2, THEN conjunct2, THEN mp, OF b] .
  have 3: "shlex_split ''a.xsl  sub/b.xsl'' = Inr (whitespace_tokens [] ''a.xsl  sub/b.xsl'')"
    using p [THEN conjunct2, THEN conjunct1, THEN mp, OF q] .
  from t 1 w 2 3 show ?thesis by blast
qed

subsection \<open>The arguments of \<^verbatim>\<open>test\<close>\<close>

lemma os_path_join_relative:
  "b = [] \<or> hd b \<noteq> CHR ''/'' \<Longrightarrow> os_path_join ''test-data'' b = ''test-data/'' @ b"
  by (auto simp: os_path_join_def)

lemma do_test_parsed:
  assumes "test_arg arg = Inr (pattern, languages)"
  shows "do_test env s arg =
     (if glob env (abspath env (os_path_join ''test-data'' pattern)) = []
      then (s\<lparr>log := log s @ [Print ''Error: No such file'']\<rparr>, Return)
      else execute env s (Test (glob env (abspath env (os_path_join ''test-data'' pattern)))
                            (split_on CHR '','' languages)))"
  using assms by (simp add: do_test_def emit_def Let_def)

text \<open>
  Claim C4, as the code has it. Without an \<^verbatim>\<open>@\<close> in the argument the test operation
  is called with the languages \<^verbatim>\<open>['en']\<close>. With exactly one \<^verbatim>\<open>@\<close> it is called
  with the comma-separated codes after the \<^verbatim>\<open>@\<close> (no code has a comma, and the codes
  joined by commas are the text after the \<^verbatim>\<open>@\<close>). In both cases the files are what
  \<^verbatim>\<open>glob\<close> returns for the absolute form of \<^verbatim>\<open>os.path.join('test-data', pattern)\<close>,
  the pattern being the part before the \<^verbatim>\<open>@\<close>; that is \<^verbatim>\<open>test-data/\<close> followed
  by the pattern when the pattern does not start with a slash. (When \<^verbatim>\<open>glob\<close> returns
  nothing the operation is not called, see C8.)
\<close>

theorem test_arguments:
  "(CHR ''@'' \<notin> set arg \<and> glob env (abspath env (os_path_join ''test-data'' arg)) \<noteq> [] \<longrightarrow>
      invocations (log (fst (do_test env s arg))) =
        invocations (log s) @ [Test (glob env (abspath env (os_path_join ''test-data'' arg))) [''en'']])
   \<and> (CHR ''@'' \<notin> set pattern \<and> CHR ''@'' \<notin> set languages
        \<and> glob env (abspath env (os_path_join ''test-data'' pattern)) \<noteq> [] \<longrightarrow>
      invocations (log (fst (do_test env s (pattern @ ''@'' @ languages)))) =
        invocations (log s) @ [Test (glob env (abspath env (os_path_join ''test-data'' pattern)))
                                 (split_on CHR '','' languages)])
   \<and> (pattern = [] \<or> hd pattern \<noteq> CHR ''/'' \<longrightarrow>
        os_path_join ''test-data'' pattern = ''test-data/'' @ pattern)
   \<and> (\<forall>code\<in>set (split_on CHR '','' languages). CHR '','' \<notin> set code)
   \<and> concat (map ((#) CHR '','') (split_on CHR '','' languages)) = CHR '','' # languages"
proof (intro conjI impI ballI)
  assume a: "CHR ''@'' \<notin> set arg \<and> glob env (abspath env (os_path_join ''test-data'' arg)) \<noteq> []"
  then have "test_arg arg = Inr (arg, ''en'')"
    by (simp add: test_arg_plain)
  then have "do_test env s arg =
      execute env s (Test (glob env (abspath env (os_path_join ''test-data'' arg))) (split_on CHR '','' ''en''))"
    using a by (simp only: do_test_parsed if_False)
  moreover have "split_on CHR '','' ''en'' = [''en'']"
    by (simp add: split_on_absent)
  ultimately show "invocations (log (fst (do_test env s arg))) =
        invocations (log s) @ [Test (glob env (abspath env (os_path_join ''test-data'' arg))) [''en'']]"
    by (simp only: execute_invocations)
next
  assume a: "CHR ''@'' \<notin> set pattern \<and> CHR ''@'' \<notin> set languages
        \<and> glob env (abspath env (os_path_join ''test-data'' pattern)) \<noteq> []"
  then have "test_arg (pattern @ ''@'' @ languages) = Inr (pattern, languages)"
    using test_arg_one [of pattern languages] by blast
  then have "do_test env s (pattern @ ''@'' @ languages) =
      execute env s (Test (glob env (abspath env (os_path_join ''test-data'' pattern)))
                       (split_on CHR '','' languages))"
    using a by (simp only: do_test_parsed if_False)
  then show "invocations (log (fst (do_test env s (pattern @ ''@'' @ languages)))) =
        invocations (log s) @ [Test (glob env (abspath env (os_path_join ''test-data'' pattern)))
                                 (split_on CHR '','' languages)]"
    by (simp only: execute_invocations)
next
  assume "pattern = [] \<or> hd pattern \<noteq> CHR ''/''"
  then show "os_path_join ''test-data'' pattern = ''test-data/'' @ pattern"
    by (rule os_path_join_relative)
next
  fix code assume "code \<in> set (split_on CHR '','' languages)"
  then show "CHR '','' \<notin> set code" by (rule split_on_pieces)
next
  show "concat (map ((#) CHR '','') (split_on CHR '','' languages)) = CHR '','' # languages"
    by (rule split_on_rejoin)
qed


theorem test_arguments_witness:
  "CHR ''@'' \<notin> set ''a.xml''
   \<and> invocations (log (fst (do_test example_env example_shell ''a.xml''))) =
       invocations (log example_shell) @ [Test [''/home/op/test-data/a.xml''] [''en'']]
   \<and> CHR ''@'' \<notin> set ''en,no''
   \<and> invocations (log (fst (do_test example_env example_shell (''a.xml'' @ ''@'' @ ''en,no'')))) =
       invocations (log example_shell) @ [Test [''/home/op/test-data/a.xml''] [''en'', ''no'']]
   \<and> os_path_join ''test-data'' ''a.xml'' = ''test-data/a.xml''
   \<and> split_on CHR '','' ''en,no'' = [''en'', ''no'']"
proof -
  note t = test_arguments [of "''a.xml''" example_env example_shell "''a.xml''" "''en,no''"]
  have j: "os_path_join ''test-data'' ''a.xml'' = ''test-data/a.xml''"
    by (simp add: os_path_join_def)
  have g: "glob example_env (abspath example_env (os_path_join ''test-data'' ''a.xml'')) =
      [''/home/op/test-data/a.xml'']"
    by (simp add: j example_env_def)
  have a: "CHR ''@'' \<notin> set ''a.xml''" by simp
  have l: "CHR ''@'' \<notin> set ''en,no''" by simp
  have sp: "split_on CHR '','' ''en,no'' = [''en'', ''no'']" by simp
  have 1: "invocations (log (fst (do_test example_env example_shell ''a.xml''))) =
       invocations (log example_shell) @ [Test [''/home/op/test-data/a.xml''] [''en'']]"
    using t [THEN conjunct1] a g by simp
  have 2: "invocations (log (fst (do_test example_env example_shell (''a.xml'' @ ''@'' @ ''en,no'')))) =
       invocations (log example_shell) @ [Test [''/home/op/test-data/a.xml''] [''en'', ''no'']]"
    using t [THEN conjunct2, THEN conjunct1] a l g sp by simp
  from a 1 l 2 j sp show ?thesis by blast
qed

text \<open>
  The claim C4 as it was stated fails on two inputs. With two \<^verbatim>\<open>@\<close> the unpacking of
  \<^verbatim>\<open>arg.split('@')\<close> raises \<^verbatim>\<open>ValueError\<close> and no language is passed to anything.
  With a pattern that starts with a slash, \<^verbatim>\<open>os.path.join\<close> drops \<^verbatim>\<open>test-data\<close>:
  the file that is tested is \<^verbatim>\<open>/tmp/b.xml\<close>, outside the test-data directory.
\<close>

theorem test_arguments_counterexample:
  "CHR ''@'' \<in> set ''a.xml@en@no''
   \<and> do_test example_env example_shell ''a.xml@en@no'' =
       (example_shell, Raise (ValueError ''too many values to unpack (expected 2)''))
   \<and> invocations (log (fst (do_test outside_env example_shell ''/tmp/b.xml@en''))) =
       invocations (log example_shell) @ [Test [''/tmp/b.xml''] [''en'']]"
proof -
  have 1: "test_arg ''a.xml@en@no'' = Inl (ValueError ''too many values to unpack (expected 2)'')"
    by (simp add: test_arg_def unpack2_def)
  have d1: "do_test example_env example_shell ''a.xml@en@no'' =
       (example_shell, Raise (ValueError ''too many values to unpack (expected 2)''))"
    by (simp add: do_test_def 1)
  have 2: "test_arg ''/tmp/b.xml@en'' = Inr (''/tmp/b.xml'', ''en'')"
    by (simp add: test_arg_def unpack2_def)
  have 3: "os_path_join ''test-data'' ''/tmp/b.xml'' = ''/tmp/b.xml''"
    by (simp add: os_path_join_def)
  have g: "glob outside_env (abspath outside_env (os_path_join ''test-data'' ''/tmp/b.xml'')) =
      [''/tmp/b.xml'']"
    by (simp add: 3 outside_env_def example_env_def)
  have 4: "split_on CHR '','' ''en'' = [''en'']" by simp
  have "do_test outside_env example_shell ''/tmp/b.xml@en'' =
      execute outside_env example_shell (Test [''/tmp/b.xml''] [''en''])"
    using do_test_parsed [OF 2, of outside_env example_shell] by (simp add: g 4)
  then have d2: "invocations (log (fst (do_test outside_env example_shell ''/tmp/b.xml@en''))) =
       invocations (log example_shell) @ [Test [''/tmp/b.xml''] [''en'']]"
    by (simp only: execute_invocations)
  have "CHR ''@'' \<in> set ''a.xml@en@no''" by simp
  with d1 d2 show ?thesis by blast
qed

subsection \<open>Leaving the shell\<close>

lemma parse_exit: "parseline ''exit'' = (Some (''exit'', []), ''exit'')"
  by code_simp
lemma parse_quit: "parseline ''quit'' = (Some (''quit'', []), ''quit'')"
  by code_simp
lemma parse_EOF: "parseline ''EOF'' = (Some (''EOF'', []), ''EOF'')"
  by code_simp
lemma parse_eof: "parseline ''eof'' = (Some (''eof'', []), ''eof'')"
  by code_simp

lemma strip_words:
  "strip ''exit'' = ''exit''" "strip ''quit'' = ''quit''" "strip ''EOF'' = ''EOF''"
  "strip ''eof'' = ''eof''"
  by code_simp+

lemma lookup_exit_handlers:
  "lookup_handler ''exit'' = Some Do_exit" "lookup_handler ''quit'' = Some Do_exit"
  "lookup_handler ''EOF'' = Some Do_exit" "lookup_handler ''eof'' = Some Do_exit"
  by (simp_all add: lookup_handler_def)

lemma process_exit_words:
  assumes "cmd \<in> {''exit'', ''quit'', ''EOF'', ''eof''}"
  shows "process_line env s cmd =
     (s\<lparr>lastcmd := (if cmd = ''EOF'' then [] else cmd), log := log s @ [WorkerClose]\<rparr>, Exit 0)"
proof -
  have p: "parseline cmd = (Some (cmd, []), cmd)" and st: "strip cmd = cmd"
    and h: "lookup_handler cmd = Some Do_exit" and ne: "cmd \<noteq> []"
    using assms parse_exit parse_quit parse_EOF parse_eof strip_words lookup_exit_handlers
    by auto
  show ?thesis
    by (simp add: process_line_def precmd_def st onecmd_def p ne h do_exit_def emit_def)
qed

text \<open>
  Claim C7. The names \<^verbatim>\<open>exit\<close>, \<^verbatim>\<open>quit\<close>, \<^verbatim>\<open>EOF\<close> and \<^verbatim>\<open>eof\<close> all
  dispatch to the handler \<^verbatim>\<open>do_exit\<close>. Whatever its argument, the handler calls
  \<^verbatim>\<open>worker.close()\<close> and then leaves the process (\<^verbatim>\<open>sys.exit()\<close>, status 0): the
  close is the last effect in the log. So does each of the four commands as an input
  line, and so does the end of the input, which the loop reads as the line \<^verbatim>\<open>EOF\<close>.
\<close>

theorem exit_closes_session:
  "cmd \<in> {''exit'', ''quit'', ''EOF'', ''eof''} \<Longrightarrow>
     lookup_handler cmd = Some Do_exit
     \<and> run_handler env s Do_exit arg = (s\<lparr>log := log s @ [WorkerClose]\<rparr>, Exit 0)
     \<and> process_line env s cmd =
         (s\<lparr>lastcmd := (if cmd = ''EOF'' then [] else cmd), log := log s @ [WorkerClose]\<rparr>, Exit 0)
     \<and> read_loop env [] s = (s\<lparr>lastcmd := [], log := log s @ [WorkerClose]\<rparr>, Exit 0)"
proof (intro conjI)
  assume c: "cmd \<in> {''exit'', ''quit'', ''EOF'', ''eof''}"
  then show "lookup_handler cmd = Some Do_exit"
    using lookup_exit_handlers by auto
  show "run_handler env s Do_exit arg = (s\<lparr>log := log s @ [WorkerClose]\<rparr>, Exit 0)"
    by (simp add: do_exit_def emit_def)
  show "process_line env s cmd =
         (s\<lparr>lastcmd := (if cmd = ''EOF'' then [] else cmd), log := log s @ [WorkerClose]\<rparr>, Exit 0)"
    using c by (rule process_exit_words)
  have "process_line env s ''EOF'' =
     (s\<lparr>lastcmd := (if ''EOF'' = ''EOF'' then [] else ''EOF''), log := log s @ [WorkerClose]\<rparr>, Exit 0)"
    by (rule process_exit_words) simp
  then show "read_loop env [] s = (s\<lparr>lastcmd := [], log := log s @ [WorkerClose]\<rparr>, Exit 0)"
    by simp
qed

theorem exit_closes_session_witness:
  "''quit'' \<in> {''exit'', ''quit'', ''EOF'', ''eof''}
   \<and> lookup_handler ''quit'' = Some Do_exit
   \<and> process_line example_env example_shell ''quit'' =
       (\<lparr>lastcmd = ''quit'', log = [Invoke Pull, WorkerClose]\<rparr>, Exit 0)
   \<and> read_loop example_env [] example_shell =
       (\<lparr>lastcmd = [], log = [Invoke Pull, WorkerClose]\<rparr>, Exit 0)"
proof -
  have m: "''quit'' \<in> {''exit'', ''quit'', ''EOF'', ''eof''}" by simp
  from exit_closes_session [OF m, of example_env example_shell "[]"] m show ?thesis
    by (simp add: example_shell_def)
qed

subsection \<open>Start-up without a configuration file\<close>

text \<open>
  Claim C9, as the code has it. \<^verbatim>\<open>main\<close> first calls \<^verbatim>\<open>parser.parse_args()\<close>. When
  \<^verbatim>\<open>slipsomat.cfg\<close> does not exist and the parser returns, \<^verbatim>\<open>main\<close> prints the
  message and returns; when the parser leaves the process, \<^verbatim>\<open>main\<close> ends there with
  the parser's status. In both cases no \<^verbatim>\<open>Shell\<close> is constructed: no worker is made or
  connected, no status file is loaded, the command loop does not start and no operation
  is called.
\<close>

theorem no_config_no_shell:
  "\<not> cfg_exists env \<Longrightarrow>
     (parse_args_exit env = None \<longrightarrow>
        main env lines =
          (\<lparr>lastcmd = [], log = [Print ''No slipsomat.cfg file found in this directory. Exiting.'']\<rparr>,
           Return))
     \<and> (\<forall>status. parse_args_exit env = Some status \<longrightarrow>
          main env lines = (\<lparr>lastcmd = [], log = [ParserOutput]\<rparr>, Exit status))
     \<and> WorkerNew \<notin> set (log (fst (main env lines)))
     \<and> WorkerConnect \<notin> set (log (fst (main env lines)))
     \<and> StatusFileNew \<notin> set (log (fst (main env lines)))
     \<and> Print ''Welcome to slipsomat. Type help or ? to list commands.''
          \<notin> set (log (fst (main env lines)))
     \<and> invocations (log (fst (main env lines))) = []"
  by (cases "parse_args_exit env") (simp_all add: main_def)

theorem no_config_no_shell_witness:
  "\<not> cfg_exists no_cfg_env \<and> parse_args_exit no_cfg_env = None
   \<and> main no_cfg_env [''pull''] =
       (\<lparr>lastcmd = [], log = [Print ''No slipsomat.cfg file found in this directory. Exiting.'']\<rparr>,
        Return)"
proof -
  have c: "\<not> cfg_exists no_cfg_env" and a: "parse_args_exit no_cfg_env = None"
    by (simp_all add: no_cfg_env_def example_env_def)
  from no_config_no_shell [OF c, of "[''pull'']"] c a show ?thesis by blast
qed

text \<open>
  The claim C9 as it was stated fails when the command line has an argument that the
  parser rejects: without \<^verbatim>\<open>slipsomat.cfg\<close>, \<^verbatim>\<open>main\<close> then neither prints the
  message nor returns; it leaves with status 2.
\<close>

theorem no_config_counterexample:
  "\<not> cfg_exists bad_args_env
   \<and> main bad_args_env [] = (\<lparr>lastcmd = [], log = [ParserOutput]\<rparr>, Exit 2)"
  by (simp add: main_def bad_args_env_def example_env_def)

subsection \<open>Failing operations\<close>

text \<open>
  \<^verbatim>\<open>handle_exception\<close> first prints the exception and the traceback. It returns to the
  loop only when the operator picks \<^verbatim>\<open>Restart browser\<close>, after
  \<^verbatim>\<open>worker.restart()\<close>. On every other path but one it calls \<^verbatim>\<open>worker.close()\<close>
  and leaves with status 0. The operation is called once (\<open>execute_invocations\<close>).
\<close>

lemma handle_exception_log:
  "\<exists>evs. log (fst (handle_exception env s e)) = log s @ PrintException e # PrintTraceback e # evs"
  by (simp add: handle_exception_def emit_def Let_def)

lemma handle_exception_restart:
  "inquirer_usable env \<Longrightarrow> answer env = ''Restart browser'' \<Longrightarrow>
     handle_exception env s e =
       (s\<lparr>log := log s @ [PrintException e, PrintTraceback e, Prompt, WorkerRestart]\<rparr>, Return)"
  by (simp add: handle_exception_def emit_def Let_def)

lemma handle_exception_return:
  "snd (handle_exception env s e) = Return \<longleftrightarrow>
     inquirer_usable env \<and> answer env = ''Restart browser''"
  by (simp add: handle_exception_def emit_def Let_def)

lemma handle_exception_closes:
  "\<not> (inquirer_usable env \<and> answer env = ''Restart browser'') \<Longrightarrow>
   \<not> (inquirer_usable env \<and> answer env = ''Debug with ipdb'' \<and> \<not> ipdb_importable env) \<Longrightarrow>
     snd (handle_exception env s e) = Exit 0
     \<and> last (log (fst (handle_exception env s e))) = WorkerClose"
  by (auto simp: handle_exception_def emit_def Let_def)

text \<open>
  Claim C6: the path that the claim does not hold on. \<^verbatim>\<open>pull\<close> raises, the operator
  picks \<^verbatim>\<open>Debug with ipdb\<close>, and \<^verbatim>\<open>import ipdb\<close> fails: the handler prints a hint
  and calls \<^verbatim>\<open>sys.exit(1)\<close> at once. The process ends with the worker made and
  connected and never closed.
\<close>

theorem ipdb_missing_exits_without_close:
  "do_pull ipdb_missing_env \<lparr>lastcmd = ''pull'', log = [WorkerNew, WorkerConnect]\<rparr> [] =
     (\<lparr>lastcmd = ''pull'',
       log = [WorkerNew, WorkerConnect, SetHistoryLength 10000, WriteHistoryFile, Invoke Pull,
              PrintException (OperationError ''session lost''),
              PrintTraceback (OperationError ''session lost''), Prompt,
              Print ''Please run \"pip install ipdb\" to install ipdb'']\<rparr>,
      Exit 1)"
  by (simp add: do_pull_def execute_def handle_exception_def emit_def Let_def
      ipdb_missing_env_def example_env_def)

section \<open>Properties of the synchronisation core\<close>

subsection \<open>What a pull leaves alone\<close>

lemma pull_entry_remote: "remoteStore (snd (pull_entry fp x s)) = remoteStore s"
  by (auto simp: pull_entry_def Let_def write_local_def split: prod.splits sum.splits)

lemma pull_entry_write_fails:
  "write_fails (localRepo (snd (pull_entry fp x s))) = write_fails (localRepo s)"
  by (auto simp: pull_entry_def Let_def write_local_def split: prod.splits sum.splits)

lemma pull_entry_other:
  "q \<noteq> fst x \<Longrightarrow>
     ledger (snd (pull_entry fp x s)) q = ledger s q
     \<and> files (localRepo (snd (pull_entry fp x s))) q = files (localRepo s) q"
  by (auto simp: pull_entry_def Let_def write_local_def split: prod.splits sum.splits)

lemma pull_entry_diverged:
  "fingerprintOf fp (localRepo s) (fst x) \<noteq> ledger s (fst x) \<Longrightarrow> snd (pull_entry fp x s) = s"
  by (auto simp: pull_entry_def Let_def remotelyModified_def newDefault_def
      split: prod.splits sum.splits)

lemma pull_entry_keeps:
  assumes "fingerprintOf fp (localRepo s) p \<noteq> ledger s p"
  shows "ledger (snd (pull_entry fp x s)) p = ledger s p
     \<and> files (localRepo (snd (pull_entry fp x s))) p = files (localRepo s) p"
proof (cases "fst x = p")
  case True
  with assms show ?thesis by (simp add: pull_entry_diverged)
next
  case False
  then show ?thesis using pull_entry_other [of p x fp s] by simp
qed

lemma pull_all_snd:
  "snd (pull_all fp (x # xs) s) = snd (pull_all fp xs (snd (pull_entry fp x s)))"
  by (simp split: prod.splits)

lemma pull_all_fst:
  "fst (pull_all fp (x # xs) s) =
     fst (pull_entry fp x s) @ fst (pull_all fp xs (snd (pull_entry fp x s)))"
  by (simp split: prod.splits)

lemma pull_all_remote: "remoteStore (snd (pull_all fp xs s)) = remoteStore s"
proof (induction xs arbitrary: s)
  case Nil
  show ?case by simp
next
  case (Cons x xs)
  show ?case
    using Cons.IH [of "snd (pull_entry fp x s)"] pull_entry_remote [of fp x s]
    by (simp only: pull_all_snd)
qed

lemma pull_all_keeps:
  "fingerprintOf fp (localRepo s) p \<noteq> ledger s p \<Longrightarrow>
     ledger (snd (pull_all fp xs s)) p = ledger s p
     \<and> files (localRepo (snd (pull_all fp xs s))) p = files (localRepo s) p"
proof (induction xs arbitrary: s)
  case Nil
  show ?case by simp
next
  case (Cons x xs)
  let ?s1 = "snd (pull_entry fp x s)"
  have k: "ledger ?s1 p = ledger s p \<and> files (localRepo ?s1) p = files (localRepo s) p"
    using Cons.prems by (rule pull_entry_keeps)
  then have "fingerprintOf fp (localRepo ?s1) p \<noteq> ledger ?s1 p"
    using Cons.prems by (simp add: fingerprintOf_def)
  then have "ledger (snd (pull_all fp xs ?s1)) p = ledger ?s1 p
     \<and> files (localRepo (snd (pull_all fp xs ?s1))) p = files (localRepo ?s1) p"
    by (rule Cons.IH)
  with k show ?case by (simp only: pull_all_snd)
qed

lemma pull_all_reports_conflict:
  assumes "(p, rf, d) \<in> set xs"
    and "ledger s p = Some h0" and "fingerprintOf fp (localRepo s) p = Some h1"
    and "h1 \<noteq> h0" and "rf \<noteq> h0" and "h1 \<noteq> rf"
  shows "Conflict p (Some h1) (Some rf) \<in> set (fst (pull_all fp xs s))"
  using assms
proof (induction xs arbitrary: s)
  case Nil
  then show ?case by simp
next
  case (Cons x xs)
  let ?s1 = "snd (pull_entry fp x s)"
  show ?case
  proof (cases "x = (p, rf, d)")
    case True
    have "fst (pull_entry fp (p, rf, d) s) = [Conflict p (Some h1) (Some rf)]"
      using Cons.prems
      by (simp add: pull_entry_def Let_def remotelyModified_def newDefault_def conflicted_def)
    with True show ?thesis by (simp add: pull_all_fst del: pull_all.simps)
  next
    case False
    with Cons.prems have m: "(p, rf, d) \<in> set xs" by simp
    have ne: "fingerprintOf fp (localRepo s) p \<noteq> ledger s p"
      using Cons.prems by simp
    have k: "ledger ?s1 p = ledger s p \<and> files (localRepo ?s1) p = files (localRepo s) p"
      using ne by (rule pull_entry_keeps)
    have "Conflict p (Some h1) (Some rf) \<in> set (fst (pull_all fp xs ?s1))"
      using m Cons.prems k by (intro Cons.IH) (simp_all add: fingerprintOf_def)
    then show ?thesis by (simp add: pull_all_fst del: pull_all.simps)
  qed
qed


subsection \<open>What a push leaves alone\<close>

lemma push_snd:
  "snd (push fp s (p # ps)) = snd (push fp (snd (push_entry fp p s)) ps)"
  by (simp split: prod.splits)

lemma push_fst:
  "fst (push fp s (p # ps)) =
     fst (push_entry fp p s) @ fst (push fp (snd (push_entry fp p s)) ps)"
  by (simp split: prod.splits)

lemma push_entry_local: "localRepo (snd (push_entry fp q s)) = localRepo s"
  by (auto simp: push_entry_def Let_def put_remote_def split: sum.splits)

lemma push_entry_rejects:
  "rejects (remoteStore (snd (push_entry fp q s))) = rejects (remoteStore s)"
  by (auto simp: push_entry_def Let_def put_remote_def split: sum.splits)

lemma push_entry_other:
  "q \<noteq> p \<Longrightarrow>
     ledger (snd (push_entry fp q s)) p = ledger s p
     \<and> map_of (entries (remoteStore (snd (push_entry fp q s)))) p
         = map_of (entries (remoteStore s)) p"
  by (auto simp: push_entry_def Let_def put_remote_def update_conv' split: sum.splits)

lemma push_entry_conflicted:
  "conflicted (fingerprintOf fp (localRepo s) p) (remoteFingerprint fp (remoteStore s) p)
     (ledger s p) \<Longrightarrow>
   push_entry fp p s =
     ([Conflict p (fingerprintOf fp (localRepo s) p) (remoteFingerprint fp (remoteStore s) p)], s)"
  by (simp add: push_entry_def Let_def)

lemma push_entry_keeps:
  assumes "conflicted (fingerprintOf fp (localRepo s) p) (remoteFingerprint fp (remoteStore s) p)
     (ledger s p)"
  shows "ledger (snd (push_entry fp q s)) p = ledger s p
     \<and> map_of (entries (remoteStore (snd (push_entry fp q s)))) p
         = map_of (entries (remoteStore s)) p"
proof (cases "q = p")
  case True
  with assms show ?thesis by (simp add: push_entry_conflicted)
next
  case False
  then show ?thesis by (rule push_entry_other)
qed

lemma push_local: "localRepo (snd (push fp s ps)) = localRepo s"
proof (induction ps arbitrary: s)
  case Nil
  show ?case by simp
next
  case (Cons q qs)
  show ?case
    using Cons.IH [of "snd (push_entry fp q s)"] push_entry_local [of fp q s]
    by (simp only: push_snd)
qed

lemma push_keeps:
  assumes "conflicted (fingerprintOf fp (localRepo s) p) (remoteFingerprint fp (remoteStore s) p)
     (ledger s p)"
  shows "ledger (snd (push fp s ps)) p = ledger s p
     \<and> map_of (entries (remoteStore (snd (push fp s ps)))) p
         = map_of (entries (remoteStore s)) p"
  using assms
proof (induction ps arbitrary: s)
  case Nil
  show ?case by simp
next
  case (Cons q qs)
  let ?s1 = "snd (push_entry fp q s)"
  have k: "ledger ?s1 p = ledger s p
     \<and> map_of (entries (remoteStore ?s1)) p = map_of (entries (remoteStore s)) p"
    using Cons.prems by (rule push_entry_keeps)
  then have "conflicted (fingerprintOf fp (localRepo ?s1) p)
      (remoteFingerprint fp (remoteStore ?s1) p) (ledger ?s1 p)"
    using Cons.prems by (simp add: push_entry_local remoteFingerprint_def)
  then have "ledger (snd (push fp ?s1 qs)) p = ledger ?s1 p
     \<and> map_of (entries (remoteStore (snd (push fp ?s1 qs)))) p
         = map_of (entries (remoteStore ?s1)) p"
    by (rule Cons.IH)
  with k show ?case by (simp only: push_snd)
qed

lemma push_reports_conflict:
  assumes "p \<in> set ps"
    and "conflicted (fingerprintOf fp (localRepo s) p) (remoteFingerprint fp (remoteStore s) p)
     (ledger s p)"
  shows "Conflict p (fingerprintOf fp (localRepo s) p) (remoteFingerprint fp (remoteStore s) p)
     \<in> set (fst (push fp s ps))"
  using assms
proof (induction ps arbitrary: s)
  case Nil
  then show ?case by simp
next
  case (Cons q qs)
  let ?s1 = "snd (push_entry fp q s)"
  show ?case
  proof (cases "q = p")
    case True
    then show ?thesis
      using Cons.prems(2) by (simp add: push_fst push_entry_conflicted del: push.simps)
  next
    case False
    with Cons.prems have m: "p \<in> set qs" by simp
    have k: "ledger ?s1 p = ledger s p
       \<and> map_of (entries (remoteStore ?s1)) p = map_of (entries (remoteStore s)) p"
      using Cons.prems(2) by (rule push_entry_keeps)
    then have same: "fingerprintOf fp (localRepo ?s1) p = fingerprintOf fp (localRepo s) p"
      "remoteFingerprint fp (remoteStore ?s1) p = remoteFingerprint fp (remoteStore s) p"
      "ledger ?s1 p = ledger s p"
      by (simp_all add: push_entry_local remoteFingerprint_def)
    have "Conflict p (fingerprintOf fp (localRepo ?s1) p)
        (remoteFingerprint fp (remoteStore ?s1) p) \<in> set (fst (push fp ?s1 qs))"
      using m Cons.prems(2) by (intro Cons.IH) (simp_all only: same)
    then show ?thesis by (simp add: push_fst same del: push.simps)
  qed
qed

subsection \<open>Conflicts\<close>

lemma listed:
  "map_of (entries r) p = Some e \<Longrightarrow> (p, fp (content e), isDefault e) \<in> set (list_remote fp r)"
proof -
  assume "map_of (entries r) p = Some e"
  then have "(p, e) \<in> set (entries r)" by (rule map_of_SomeD)
  then have "(\<lambda>(p, e). (p, fp (content e), isDefault e)) (p, e) \<in> set (list_remote fp r)"
    unfolding list_remote_def set_map by (rule imageI)
  then show ?thesis by simp
qed

text \<open>
  Claim C1, as the specified algorithms have it. A path has the ledger fingerprint
  \<open>h0\<close>, the local fingerprint \<open>h1\<close> and a remote entry with the fingerprint
  \<open>h2\<close>, the three of them different. Then pull reports the conflict (path, local and
  remote fingerprint) when the remote entry is not a vendor default, and push reports it
  when the path is among the selected ones. Both return their reports as a value and go
  on with the other entries, and whatever else they work on, they leave the ledger entry,
  the local content and the remote entry of the path as they were.
\<close>

theorem conflict_is_reported_and_skipped:
  assumes g: "ledger s p = Some h0"
    and l: "fingerprintOf fp (localRepo s) p = Some h1"
    and r: "map_of (entries (remoteStore s)) p = Some e"
    and h2: "fp (content e) = h2"
    and ne: "h1 \<noteq> h0" "h2 \<noteq> h0" "h1 \<noteq> h2"
  shows "(\<not> isDefault e \<longrightarrow> Conflict p (Some h1) (Some h2) \<in> set (fst (pull fp s)))
     \<and> (p \<in> set selected \<longrightarrow> Conflict p (Some h1) (Some h2) \<in> set (fst (push fp s selected)))
     \<and> untouched p s (snd (pull fp s))
     \<and> untouched p s (snd (push fp s selected))"
proof (intro conjI impI)
  have d: "fingerprintOf fp (localRepo s) p \<noteq> ledger s p"
    using g l ne by simp
  have rf: "remoteFingerprint fp (remoteStore s) p = Some h2"
    using r h2 by (simp add: remoteFingerprint_def)
  have c: "conflicted (fingerprintOf fp (localRepo s) p) (remoteFingerprint fp (remoteStore s) p)
     (ledger s p)"
    using g l rf ne by (simp add: conflicted_def)
  {
    assume "\<not> isDefault e"
    then have "(p, h2, False) \<in> set (filter (\<lambda>(p, rf, d). \<not> d) (list_remote fp (remoteStore s)))"
      using listed [OF r, of fp] h2 by simp
    then show "Conflict p (Some h1) (Some h2) \<in> set (fst (pull fp s))"
      unfolding pull_def using g l ne by (rule pull_all_reports_conflict)
  }
  {
    assume "p \<in> set selected"
    then have "Conflict p (fingerprintOf fp (localRepo s) p)
        (remoteFingerprint fp (remoteStore s) p) \<in> set (fst (push fp s selected))"
      using c by (rule push_reports_conflict)
    then show "Conflict p (Some h1) (Some h2) \<in> set (fst (push fp s selected))"
      by (simp only: l rf)
  }
  show "untouched p s (snd (pull fp s))"
    unfolding pull_def untouched_def
    using pull_all_keeps [OF d] by (simp add: pull_all_remote)
  show "untouched p s (snd (push fp s selected))"
    unfolding untouched_def
    using push_keeps [OF c] by (simp add: push_local)
qed

theorem conflict_is_reported_and_skipped_witness:
  "ledger (conflict_state False) ''overdue.xsl'' = Some ''v0''
   \<and> fingerprintOf content_fp (localRepo (conflict_state False)) ''overdue.xsl'' = Some ''v1''
   \<and> remoteFingerprint content_fp (remoteStore (conflict_state False)) ''overdue.xsl'' = Some ''v2''
   \<and> Conflict ''overdue.xsl'' (Some ''v1'') (Some ''v2'')
        \<in> set (fst (pull content_fp (conflict_state False)))
   \<and> Conflict ''overdue.xsl'' (Some ''v1'') (Some ''v2'')
        \<in> set (fst (push content_fp (conflict_state False) [''a.xsl'', ''overdue.xsl'']))
   \<and> untouched ''overdue.xsl'' (conflict_state False) (snd (pull content_fp (conflict_state False)))
   \<and> untouched ''overdue.xsl'' (conflict_state False)
        (snd (push content_fp (conflict_state False) [''a.xsl'', ''overdue.xsl'']))"
proof -
  have g: "ledger (conflict_state False) ''overdue.xsl'' = Some ''v0''"
    by (simp add: conflict_state_def)
  have l: "fingerprintOf content_fp (localRepo (conflict_state False)) ''overdue.xsl'' = Some ''v1''"
    by (simp add: conflict_state_def fingerprintOf_def content_fp_def)
  have r: "map_of (entries (remoteStore (conflict_state False))) ''overdue.xsl''
      = Some \<lparr>content = ''v2'', isDefault = False\<rparr>"
    by (simp add: conflict_state_def)
  have h: "content_fp (content \<lparr>content = ''v2'', isDefault = False\<rparr>) = ''v2''"
    by (simp add: content_fp_def)
  have rf: "remoteFingerprint content_fp (remoteStore (conflict_state False)) ''overdue.xsl''
      = Some ''v2''"
    by (simp add: remoteFingerprint_def r content_fp_def)
  have n: "''v1'' \<noteq> ''v0''" "''v2'' \<noteq> ''v0''" "''v1'' \<noteq> ''v2''" by simp_all
  from conflict_is_reported_and_skipped [OF g l r h n, of "[''a.xsl'', ''overdue.xsl'']"] g l rf
  show ?thesis by simp
qed

text \<open>
  The claim C1 as it was stated fails for a vendor default: pull works on the entries
  that are not vendor defaults only, and reports nothing here. It also fails for a push
  of other paths: push works on the selected paths only.
\<close>

theorem conflict_counterexample:
  "ledger (conflict_state True) ''overdue.xsl'' = Some ''v0''
   \<and> fingerprintOf content_fp (localRepo (conflict_state True)) ''overdue.xsl'' = Some ''v1''
   \<and> remoteFingerprint content_fp (remoteStore (conflict_state True)) ''overdue.xsl'' = Some ''v2''
   \<and> fst (pull content_fp (conflict_state True)) = []
   \<and> fst (push content_fp (conflict_state True) [''a.xsl'']) = [Failed ''a.xsl'' NotFound]"
  by (simp add: conflict_state_def fingerprintOf_def content_fp_def remoteFingerprint_def
      pull_def list_remote_def push_entry_def conflicted_def locallyModified_def read_local_def)

subsection \<open>What a pull records\<close>

lemma pull_entry_Pulled:
  assumes "remoteFingerprint fp (remoteStore s) p = Some rf"
    and "Pulled q f \<in> set (fst (pull_entry fp (p, rf, d) s))"
  shows "q = p \<and> agreed fp p f (snd (pull_entry fp (p, rf, d) s))"
  using assms
  by (auto simp: pull_entry_def Let_def agreed_def fetch_remote_def write_local_def
      remoteFingerprint_def fingerprintOf_def
      split: sum.splits option.splits if_splits)

lemma pull_entry_Failed:
  "Failed q e \<in> set (fst (pull_entry fp x s)) \<Longrightarrow> q = fst x \<and> snd (pull_entry fp x s) = s"
  by (auto simp: pull_entry_def Let_def split: prod.splits sum.splits if_splits)

lemma pull_entry_report_path:
  "rep \<in> set (fst (pull_entry fp x s)) \<Longrightarrow> report_path rep = fst x"
  by (auto simp: pull_entry_def Let_def split: prod.splits sum.splits if_splits)

lemma pull_all_report_path:
  "rep \<in> set (fst (pull_all fp xs s)) \<Longrightarrow> report_path rep \<in> fst ` set xs"
proof (induction xs arbitrary: s)
  case Nil
  then show ?case by simp
next
  case (Cons x xs)
  from Cons.prems have "rep \<in> set (fst (pull_entry fp x s))
      \<or> rep \<in> set (fst (pull_all fp xs (snd (pull_entry fp x s))))"
    by (simp add: pull_all_fst del: pull_all.simps)
  then show ?case
  proof
    assume "rep \<in> set (fst (pull_entry fp x s))"
    then have "report_path rep = fst x" by (rule pull_entry_report_path)
    then show ?thesis by simp
  next
    assume "rep \<in> set (fst (pull_all fp xs (snd (pull_entry fp x s))))"
    then have "report_path rep \<in> fst ` set xs" by (rule Cons.IH)
    then show ?thesis by simp
  qed
qed

lemma pull_all_other:
  "p \<notin> fst ` set xs \<Longrightarrow>
     ledger (snd (pull_all fp xs s)) p = ledger s p
     \<and> files (localRepo (snd (pull_all fp xs s))) p = files (localRepo s) p"
proof (induction xs arbitrary: s)
  case Nil
  show ?case by simp
next
  case (Cons x xs)
  let ?s1 = "snd (pull_entry fp x s)"
  from Cons.prems have n: "p \<noteq> fst x" and m: "p \<notin> fst ` set xs" by auto
  have "ledger ?s1 p = ledger s p \<and> files (localRepo ?s1) p = files (localRepo s) p"
    using n by (rule pull_entry_other)
  moreover have "ledger (snd (pull_all fp xs ?s1)) p = ledger ?s1 p
     \<and> files (localRepo (snd (pull_all fp xs ?s1))) p = files (localRepo ?s1) p"
    using m by (rule Cons.IH)
  ultimately show ?case by (simp only: pull_all_snd)
qed

lemma agreed_cong:
  assumes "agreed fp p f s"
    and "ledger s' p = ledger s p"
    and "files (localRepo s') p = files (localRepo s) p"
    and "map_of (entries (remoteStore s')) p = map_of (entries (remoteStore s)) p"
  shows "agreed fp p f s'"
  using assms by (simp add: agreed_def fingerprintOf_def remoteFingerprint_def)

lemma list_remote_fingerprint:
  assumes "distinct (map fst (entries r))" and "x \<in> set (list_remote fp r)"
  shows "remoteFingerprint fp r (fst x) = Some (fst (snd x))"
proof -
  from assms(2) obtain p e where pe: "(p, e) \<in> set (entries r)"
    and x: "x = (p, fp (content e), isDefault e)"
    by (auto simp: list_remote_def)
  from assms(1) pe have "map_of (entries r) p = Some e" by (rule map_of_is_SomeI)
  then show ?thesis by (simp add: remoteFingerprint_def x)
qed

lemma list_remote_paths: "map fst (list_remote fp r) = map fst (entries r)"
  by (simp add: list_remote_def case_prod_beta comp_def)

lemma distinct_listing:
  "distinct (map fst (entries r)) \<Longrightarrow> distinct (map fst (filter P (list_remote fp r)))"
  by (simp add: distinct_map_filter list_remote_paths)

lemma pull_all_Pulled:
  assumes "distinct (map fst xs)"
    and "\<forall>x\<in>set xs. remoteFingerprint fp (remoteStore s) (fst x) = Some (fst (snd x))"
    and "Pulled p f \<in> set (fst (pull_all fp xs s))"
  shows "agreed fp p f (snd (pull_all fp xs s))"
  using assms
proof (induction xs arbitrary: s)
  case Nil
  then show ?case by simp
next
  case (Cons x xs)
  let ?s1 = "snd (pull_entry fp x s)"
  obtain q rf d where x: "x = (q, rf, d)" by (cases x) auto
  from Cons.prems(1) have dx: "q \<notin> fst ` set xs" and dxs: "distinct (map fst xs)"
    by (simp_all add: x)
  have r1: "remoteStore ?s1 = remoteStore s" by (rule pull_entry_remote)
  from Cons.prems(3) have "Pulled p f \<in> set (fst (pull_entry fp x s))
      \<or> Pulled p f \<in> set (fst (pull_all fp xs ?s1))"
    by (simp add: pull_all_fst del: pull_all.simps)
  then show ?case
  proof
    assume h: "Pulled p f \<in> set (fst (pull_entry fp x s))"
    have c: "remoteFingerprint fp (remoteStore s) q = Some rf"
      using Cons.prems(2) by (simp add: x)
    have h': "Pulled p f \<in> set (fst (pull_entry fp (q, rf, d) s))"
      using h by (simp only: x)
    have pq: "p = q \<and> agreed fp q f (snd (pull_entry fp (q, rf, d) s))"
      using c h' by (rule pull_entry_Pulled)
    then have p: "p = q" and a: "agreed fp q f ?s1"
      by (simp_all only: x)
    have k: "ledger (snd (pull_all fp xs ?s1)) q = ledger ?s1 q
       \<and> files (localRepo (snd (pull_all fp xs ?s1))) q = files (localRepo ?s1) q"
      using dx by (rule pull_all_other)
    have m: "map_of (entries (remoteStore (snd (pull_all fp xs ?s1)))) q
        = map_of (entries (remoteStore ?s1)) q"
      by (simp only: pull_all_remote)
    have "agreed fp q f (snd (pull_all fp xs ?s1))"
      using a k [THEN conjunct1] k [THEN conjunct2] m by (rule agreed_cong)
    then show ?thesis by (simp only: pull_all_snd p)
  next
    assume h: "Pulled p f \<in> set (fst (pull_all fp xs ?s1))"
    have "\<forall>x\<in>set xs. remoteFingerprint fp (remoteStore ?s1) (fst x) = Some (fst (snd x))"
      using Cons.prems(2) by (simp add: r1)
    with dxs have "agreed fp p f (snd (pull_all fp xs ?s1))"
      using h by (rule Cons.IH)
    then show ?thesis by (simp only: pull_all_snd)
  qed
qed

lemma pull_all_Failed:
  assumes "distinct (map fst xs)"
    and "Failed p e \<in> set (fst (pull_all fp xs s))"
  shows "ledger (snd (pull_all fp xs s)) p = ledger s p"
  using assms
proof (induction xs arbitrary: s)
  case Nil
  then show ?case by simp
next
  case (Cons x xs)
  let ?s1 = "snd (pull_entry fp x s)"
  from Cons.prems(1) have dx: "fst x \<notin> fst ` set xs" and dxs: "distinct (map fst xs)"
    by simp_all
  from Cons.prems(2) have "Failed p e \<in> set (fst (pull_entry fp x s))
      \<or> Failed p e \<in> set (fst (pull_all fp xs ?s1))"
    by (simp add: pull_all_fst del: pull_all.simps)
  then show ?case
  proof
    assume "Failed p e \<in> set (fst (pull_entry fp x s))"
    then have pq: "p = fst x \<and> ?s1 = s" by (rule pull_entry_Failed)
    then have "p \<notin> fst ` set xs" using dx by simp
    then have "ledger (snd (pull_all fp xs ?s1)) p = ledger ?s1 p"
      using pull_all_other [of p xs fp ?s1] by simp
    with pq show ?thesis by (simp only: pull_all_snd)
  next
    assume h: "Failed p e \<in> set (fst (pull_all fp xs ?s1))"
    from pull_all_report_path [OF h] have "p \<in> fst ` set xs" by simp
    then have "p \<noteq> fst x" using dx by blast
    then have "ledger ?s1 p = ledger s p" using pull_entry_other [of p x fp s] by simp
    moreover have "ledger (snd (pull_all fp xs ?s1)) p = ledger ?s1 p"
      using dxs h by (rule Cons.IH)
    ultimately show ?thesis by (simp only: pull_all_snd)
  qed
qed

subsection \<open>What a push records\<close>

lemma push_entry_Pushed:
  "Pushed q f \<in> set (fst (push_entry fp p s)) \<Longrightarrow>
     q = p \<and> agreed fp p f (snd (push_entry fp p s))"
  by (auto simp: push_entry_def Let_def agreed_def read_local_def put_remote_def
      remoteFingerprint_def fingerprintOf_def update_conv'
      split: sum.splits option.splits if_splits)

lemma push_entry_Failed:
  "Failed q e \<in> set (fst (push_entry fp p s)) \<Longrightarrow> q = p \<and> snd (push_entry fp p s) = s"
  by (auto simp: push_entry_def Let_def split: sum.splits if_splits)

lemma push_entry_no_push:
  "\<forall>f. Pushed p f \<notin> set (fst (push_entry fp p s)) \<Longrightarrow> snd (push_entry fp p s) = s"
  by (auto simp: push_entry_def Let_def split: sum.splits if_splits)

lemma push_entry_agreed:
  "agreed fp p f s \<Longrightarrow> push_entry fp p s = ([], s)"
  by (simp add: push_entry_def Let_def agreed_def conflicted_def locallyModified_def
      unchanged_def)

lemma push_entry_reports_cong:
  assumes "localRepo s' = localRepo s"
    and "rejects (remoteStore s') = rejects (remoteStore s)"
    and "ledger s' p = ledger s p"
    and "map_of (entries (remoteStore s')) p = map_of (entries (remoteStore s)) p"
  shows "fst (push_entry fp p s') = fst (push_entry fp p s)"
  using assms
  by (simp add: push_entry_def Let_def remoteFingerprint_def put_remote_def
      split: sum.splits)

lemma push_entry_view:
  assumes "q \<noteq> p"
  shows "fst (push_entry fp p (snd (push_entry fp q s))) = fst (push_entry fp p s)"
proof (rule push_entry_reports_cong)
  show "localRepo (snd (push_entry fp q s)) = localRepo s"
    by (rule push_entry_local)
  show "rejects (remoteStore (snd (push_entry fp q s))) = rejects (remoteStore s)"
    by (rule push_entry_rejects)
  show "ledger (snd (push_entry fp q s)) p = ledger s p"
    using push_entry_other [OF assms] by blast
  show "map_of (entries (remoteStore (snd (push_entry fp q s)))) p
      = map_of (entries (remoteStore s)) p"
    using push_entry_other [OF assms] by blast
qed

lemma push_entry_agreed_keeps:
  assumes "agreed fp p f s"
  shows "agreed fp p f (snd (push_entry fp q s))"
proof (cases "q = p")
  case True
  have "push_entry fp p s = ([], s)"
    using assms by (rule push_entry_agreed)
  with True assms show ?thesis by simp
next
  case False
  note o = push_entry_other [OF False, of fp s]
  have l: "ledger (snd (push_entry fp q s)) p = ledger s p"
    using o by (rule conjunct1)
  have m: "map_of (entries (remoteStore (snd (push_entry fp q s)))) p
      = map_of (entries (remoteStore s)) p"
    using o by (rule conjunct2)
  have f: "files (localRepo (snd (push_entry fp q s))) p = files (localRepo s) p"
    by (simp only: push_entry_local)
  show ?thesis
    using assms l f m by (rule agreed_cong)
qed

lemma push_stuck:
  "Failed p e \<in> set (fst (push_entry fp p s)) \<Longrightarrow> ledger (snd (push fp s qs)) p = ledger s p"
proof (induction qs arbitrary: s)
  case Nil
  show ?case by simp
next
  case (Cons q qs)
  let ?s1 = "snd (push_entry fp q s)"
  have "Failed p e \<in> set (fst (push_entry fp p ?s1)) \<and> ledger ?s1 p = ledger s p"
  proof (cases "q = p")
    case True
    from Cons.prems have "snd (push_entry fp p s) = s"
      using push_entry_Failed [of p e fp p s] by blast
    with True Cons.prems show ?thesis by simp
  next
    case False
    then have "fst (push_entry fp p ?s1) = fst (push_entry fp p s)"
      by (rule push_entry_view)
    moreover have "ledger ?s1 p = ledger s p"
      using push_entry_other [OF False] by blast
    ultimately show ?thesis using Cons.prems by simp
  qed
  then have "ledger (snd (push fp ?s1 qs)) p = ledger ?s1 p" and "ledger ?s1 p = ledger s p"
    using Cons.IH [of ?s1] by blast+
  then show ?case by (simp only: push_snd)
qed

lemma push_agreed_run:
  "agreed fp p f s \<Longrightarrow>
     agreed fp p f (snd (push fp s ps)) \<and> Failed p e \<notin> set (fst (push fp s ps))"
proof (induction ps arbitrary: s)
  case Nil
  then show ?case by simp
next
  case (Cons q qs)
  let ?s1 = "snd (push_entry fp q s)"
  have a1: "agreed fp p f ?s1"
    using Cons.prems by (rule push_entry_agreed_keeps)
  then have ih: "agreed fp p f (snd (push fp ?s1 qs)) \<and> Failed p e \<notin> set (fst (push fp ?s1 qs))"
    by (rule Cons.IH)
  have "Failed p e \<notin> set (fst (push_entry fp q s))"
  proof
    assume h: "Failed p e \<in> set (fst (push_entry fp q s))"
    then have "p = q" using push_entry_Failed [of p e fp q s] by blast
    with Cons.prems have "push_entry fp q s = ([], s)" by (simp add: push_entry_agreed)
    with h show False by simp
  qed
  with ih show ?case by (simp add: push_fst push_snd del: push.simps)
qed

lemma push_Pushed:
  "Pushed p f \<in> set (fst (push fp s ps)) \<Longrightarrow> agreed fp p f (snd (push fp s ps))"
proof (induction ps arbitrary: s)
  case Nil
  then show ?case by simp
next
  case (Cons q qs)
  let ?s1 = "snd (push_entry fp q s)"
  from Cons.prems have "Pushed p f \<in> set (fst (push_entry fp q s))
      \<or> Pushed p f \<in> set (fst (push fp ?s1 qs))"
    by (simp add: push_fst del: push.simps)
  then show ?case
  proof
    assume "Pushed p f \<in> set (fst (push_entry fp q s))"
    then have "agreed fp p f ?s1" using push_entry_Pushed [of p f fp q s] by blast
    then have "agreed fp p f (snd (push fp ?s1 qs))"
      using push_agreed_run [of fp p f ?s1 qs] by blast
    then show ?thesis by (simp only: push_snd)
  next
    assume "Pushed p f \<in> set (fst (push fp ?s1 qs))"
    then have "agreed fp p f (snd (push fp ?s1 qs))" by (rule Cons.IH)
    then show ?thesis by (simp only: push_snd)
  qed
qed

lemma push_Failed:
  "Failed p e \<in> set (fst (push fp s ps)) \<Longrightarrow> ledger (snd (push fp s ps)) p = ledger s p"
proof (induction ps arbitrary: s)
  case Nil
  then show ?case by simp
next
  case (Cons q qs)
  let ?s1 = "snd (push_entry fp q s)"
  from Cons.prems have "Failed p e \<in> set (fst (push_entry fp q s))
      \<or> Failed p e \<in> set (fst (push fp ?s1 qs))"
    by (simp add: push_fst del: push.simps)
  then show ?case
  proof
    assume h: "Failed p e \<in> set (fst (push_entry fp q s))"
    then have q: "q = p" and s1: "?s1 = s"
      using push_entry_Failed [of p e fp q s] by blast+
    from h q have "Failed p e \<in> set (fst (push_entry fp p s))" by simp
    then have "ledger (snd (push fp s qs)) p = ledger s p" by (rule push_stuck)
    then show ?thesis by (simp only: push_snd s1)
  next
    assume h: "Failed p e \<in> set (fst (push fp ?s1 qs))"
    then have ih: "ledger (snd (push fp ?s1 qs)) p = ledger ?s1 p" by (rule Cons.IH)
    have "ledger ?s1 p = ledger s p"
    proof (cases "q = p")
      case False
      then show ?thesis using push_entry_other [of q p fp s] by blast
    next
      case True
      show ?thesis
      proof (cases "\<exists>f. Pushed p f \<in> set (fst (push_entry fp p s))")
        case True
        then obtain f where "Pushed p f \<in> set (fst (push_entry fp p s))" by blast
        then have "agreed fp p f (snd (push_entry fp p s))"
          using push_entry_Pushed [of p f fp p s] by blast
        then have "Failed p e \<notin> set (fst (push fp (snd (push_entry fp p s)) qs))"
          using push_agreed_run [of fp p f "snd (push_entry fp p s)" qs e] by blast
        with h \<open>q = p\<close> show ?thesis by simp
      next
        case False
        then have "snd (push_entry fp p s) = s"
          using push_entry_no_push [of p fp s] by blast
        with \<open>q = p\<close> show ?thesis by simp
      qed
    qed
    with ih show ?thesis by (simp only: push_snd)
  qed
qed

subsection \<open>The remote listing\<close>

lemma pull_listing:
  assumes "distinct (map fst (entries (remoteStore s)))"
  shows "distinct (map fst (filter P (list_remote fp (remoteStore s))))"
    and "\<forall>x\<in>set (filter P (list_remote fp (remoteStore s))).
           remoteFingerprint fp (remoteStore s) (fst x) = Some (fst (snd x))"
proof -
  show "distinct (map fst (filter P (list_remote fp (remoteStore s))))"
    using assms by (rule distinct_listing)
  show "\<forall>x\<in>set (filter P (list_remote fp (remoteStore s))).
           remoteFingerprint fp (remoteStore s) (fst x) = Some (fst (snd x))"
  proof
    fix x assume "x \<in> set (filter P (list_remote fp (remoteStore s)))"
    then have "x \<in> set (list_remote fp (remoteStore s))" by simp
    with assms show "remoteFingerprint fp (remoteStore s) (fst x) = Some (fst (snd x))"
      by (rule list_remote_fingerprint)
  qed
qed

lemma drift_distinct: "distinct (map fst (entries (remoteStore drift_state)))"
  by (simp add: drift_state_def)

lemma drift_pull:
  "fst (pull content_fp drift_state) = [Pulled ''a.xsl'' ''v2'', Failed ''b.xsl'' IOError]"
  by code_simp

lemma drift_push:
  "fst (push content_fp drift_state [''c.xsl'', ''d.xsl''])
     = [Pushed ''c.xsl'' ''v1'', Failed ''d.xsl'' RemoteRejected]"
  by code_simp

subsection \<open>Running an operation again\<close>

lemma pull_entry_no_pull:
  "\<forall>q f. Pulled q f \<notin> set (fst (pull_entry fp x s)) \<Longrightarrow> snd (pull_entry fp x s) = s"
  by (auto simp: pull_entry_def Let_def split: prod.splits sum.splits if_splits)

lemma pull_entry_reports_cong:
  assumes "ledger s' (fst x) = ledger s (fst x)"
    and "files (localRepo s') (fst x) = files (localRepo s) (fst x)"
    and "write_fails (localRepo s') = write_fails (localRepo s)"
    and "remoteStore s' = remoteStore s"
  shows "fst (pull_entry fp x s') = fst (pull_entry fp x s)"
proof -
  obtain p rf d where x: "x = (p, rf, d)" by (cases x) auto
  have l: "ledger s' p = ledger s p" and f: "files (localRepo s') p = files (localRepo s) p"
    using assms(1,2) by (simp_all add: x)
  show ?thesis
    unfolding x
    by (simp add: pull_entry_def Let_def fingerprintOf_def write_local_def l f assms(3,4)
        split: sum.splits)
qed

lemma pull_entry_agreed:
  "agreed fp p rf s \<Longrightarrow> fst (pull_entry fp (p, rf, d) s) = []"
  by (simp add: pull_entry_def Let_def agreed_def remotelyModified_def newDefault_def
      conflicted_def)

lemma pull_all_write_fails:
  "write_fails (localRepo (snd (pull_all fp xs s))) = write_fails (localRepo s)"
proof (induction xs arbitrary: s)
  case Nil
  show ?case by simp
next
  case (Cons x xs)
  show ?case
    using Cons.IH [of "snd (pull_entry fp x s)"] pull_entry_write_fails [of fp x s]
    by (simp only: pull_all_snd)
qed

lemma pull_entry_settles:
  assumes "remoteFingerprint fp (remoteStore s) p = Some rf"
  shows "\<forall>q f. Pulled q f \<notin> set (fst (pull_entry fp (p, rf, d) (snd (pull_entry fp (p, rf, d) s))))"
proof (cases "\<exists>q f. Pulled q f \<in> set (fst (pull_entry fp (p, rf, d) s))")
  case True
  then obtain q f where h: "Pulled q f \<in> set (fst (pull_entry fp (p, rf, d) s))" by blast
  have a: "agreed fp p f (snd (pull_entry fp (p, rf, d) s))"
    using pull_entry_Pulled [OF assms h] by (rule conjunct2)
  have "remoteFingerprint fp (remoteStore (snd (pull_entry fp (p, rf, d) s))) p = Some rf"
    using assms by (simp only: pull_entry_remote)
  with a have "f = rf" by (simp add: agreed_def)
  with a have "agreed fp p rf (snd (pull_entry fp (p, rf, d) s))" by simp
  then have "fst (pull_entry fp (p, rf, d) (snd (pull_entry fp (p, rf, d) s))) = []"
    by (rule pull_entry_agreed)
  then show ?thesis by simp
next
  case False
  then have n: "\<forall>q f. Pulled q f \<notin> set (fst (pull_entry fp (p, rf, d) s))" by blast
  then have "snd (pull_entry fp (p, rf, d) s) = s" by (rule pull_entry_no_pull)
  with n show ?thesis by simp
qed

lemma pull_all_view:
  assumes "fst x \<notin> fst ` set xs"
  shows "fst (pull_entry fp x (snd (pull_all fp xs s))) = fst (pull_entry fp x s)"
proof (rule pull_entry_reports_cong)
  note o = pull_all_other [OF assms, of fp s]
  show "ledger (snd (pull_all fp xs s)) (fst x) = ledger s (fst x)"
    using o by (rule conjunct1)
  show "files (localRepo (snd (pull_all fp xs s))) (fst x) = files (localRepo s) (fst x)"
    using o by (rule conjunct2)
  show "write_fails (localRepo (snd (pull_all fp xs s))) = write_fails (localRepo s)"
    by (rule pull_all_write_fails)
  show "remoteStore (snd (pull_all fp xs s)) = remoteStore s"
    by (rule pull_all_remote)
qed

lemma pull_all_quiet:
  assumes "distinct (map fst xs)"
    and "\<forall>x\<in>set xs. remoteFingerprint fp (remoteStore s) (fst x) = Some (fst (snd x))"
    and "x \<in> set xs"
  shows "\<forall>q f. Pulled q f \<notin> set (fst (pull_entry fp x (snd (pull_all fp xs s))))"
  using assms
proof (induction xs arbitrary: s)
  case Nil
  then show ?case by simp
next
  case (Cons y ys)
  let ?s1 = "snd (pull_entry fp y s)"
  from Cons.prems(1) have dy: "fst y \<notin> fst ` set ys" and dys: "distinct (map fst ys)"
    by simp_all
  have r1: "remoteStore ?s1 = remoteStore s" by (rule pull_entry_remote)
  from Cons.prems(3) have "x = y \<or> x \<in> set ys" by simp
  then show ?case
  proof
    assume xy: "x = y"
    obtain p rf d where y: "y = (p, rf, d)" by (cases y) auto
    have c: "remoteFingerprint fp (remoteStore s) p = Some rf"
      using Cons.prems(2) by (simp add: y)
    have "\<forall>q f. Pulled q f \<notin> set (fst (pull_entry fp (p, rf, d) (snd (pull_entry fp (p, rf, d) s))))"
      using c by (rule pull_entry_settles)
    then have q1: "\<forall>q f. Pulled q f \<notin> set (fst (pull_entry fp y ?s1))"
      unfolding y .
    have "fst (pull_entry fp y (snd (pull_all fp ys ?s1))) = fst (pull_entry fp y ?s1)"
      using dy by (rule pull_all_view)
    with q1 show ?thesis by (simp add: pull_all_snd xy del: pull_all.simps)
  next
    assume m: "x \<in> set ys"
    have "\<forall>x\<in>set ys. remoteFingerprint fp (remoteStore ?s1) (fst x) = Some (fst (snd x))"
      using Cons.prems(2) by (simp add: r1)
    with dys have "\<forall>q f. Pulled q f \<notin> set (fst (pull_entry fp x (snd (pull_all fp ys ?s1))))"
      using m by (rule Cons.IH)
    then show ?thesis by (simp add: pull_all_snd del: pull_all.simps)
  qed
qed

lemma pull_all_idle:
  assumes "\<forall>x\<in>set xs. \<forall>q f. Pulled q f \<notin> set (fst (pull_entry fp x s))"
  shows "snd (pull_all fp xs s) = s \<and> (\<forall>q f. Pulled q f \<notin> set (fst (pull_all fp xs s)))"
  using assms
proof (induction xs)
  case Nil
  show ?case by simp
next
  case (Cons y ys)
  from Cons.prems have n: "\<forall>q f. Pulled q f \<notin> set (fst (pull_entry fp y s))"
    and r: "\<forall>x\<in>set ys. \<forall>q f. Pulled q f \<notin> set (fst (pull_entry fp x s))"
    by simp_all
  from n have s1: "snd (pull_entry fp y s) = s" by (rule pull_entry_no_pull)
  from r have ih: "snd (pull_all fp ys s) = s \<and> (\<forall>q f. Pulled q f \<notin> set (fst (pull_all fp ys s)))"
    by (rule Cons.IH)
  show ?case
    using n ih by (simp add: pull_all_snd pull_all_fst s1 del: pull_all.simps)
qed

lemma push_entry_settles:
  "\<forall>f. Pushed p f \<notin> set (fst (push_entry fp p (snd (push_entry fp p s))))"
proof (cases "\<exists>f. Pushed p f \<in> set (fst (push_entry fp p s))")
  case True
  then obtain f where h: "Pushed p f \<in> set (fst (push_entry fp p s))" by blast
  have "agreed fp p f (snd (push_entry fp p s))"
    using push_entry_Pushed [OF h] by (rule conjunct2)
  then have "push_entry fp p (snd (push_entry fp p s)) = ([], snd (push_entry fp p s))"
    by (rule push_entry_agreed)
  then show ?thesis by simp
next
  case False
  then have n: "\<forall>f. Pushed p f \<notin> set (fst (push_entry fp p s))" by blast
  then have "snd (push_entry fp p s) = s" by (rule push_entry_no_push)
  with n show ?thesis by simp
qed

lemma push_entry_quiet_keeps:
  assumes "\<forall>f. Pushed p f \<notin> set (fst (push_entry fp p s))"
  shows "\<forall>f. Pushed p f \<notin> set (fst (push_entry fp p (snd (push_entry fp q s))))"
proof (cases "q = p")
  case True
  from assms have "snd (push_entry fp p s) = s" by (rule push_entry_no_push)
  with True assms show ?thesis by simp
next
  case False
  then have "fst (push_entry fp p (snd (push_entry fp q s))) = fst (push_entry fp p s)"
    by (rule push_entry_view)
  with assms show ?thesis by simp
qed

lemma push_quiet_keeps:
  "\<forall>f. Pushed p f \<notin> set (fst (push_entry fp p s)) \<Longrightarrow>
     \<forall>f. Pushed p f \<notin> set (fst (push_entry fp p (snd (push fp s qs))))"
proof (induction qs arbitrary: s)
  case Nil
  then show ?case by simp
next
  case (Cons q qs)
  have "\<forall>f. Pushed p f \<notin> set (fst (push_entry fp p (snd (push_entry fp q s))))"
    using Cons.prems by (rule push_entry_quiet_keeps)
  then have "\<forall>f. Pushed p f \<notin> set (fst (push_entry fp p
      (snd (push fp (snd (push_entry fp q s)) qs))))"
    by (rule Cons.IH)
  then show ?case by (simp add: push_snd del: push.simps)
qed

lemma push_quiet:
  "p \<in> set ps \<Longrightarrow> \<forall>f. Pushed p f \<notin> set (fst (push_entry fp p (snd (push fp s ps))))"
proof (induction ps arbitrary: s)
  case Nil
  then show ?case by simp
next
  case (Cons q qs)
  let ?s1 = "snd (push_entry fp q s)"
  from Cons.prems have "p = q \<or> p \<in> set qs" by auto
  then show ?case
  proof
    assume pq: "p = q"
    have "\<forall>f. Pushed p f \<notin> set (fst (push_entry fp p (snd (push_entry fp p s))))"
      by (rule push_entry_settles)
    then have "\<forall>f. Pushed p f \<notin> set (fst (push_entry fp p
        (snd (push fp (snd (push_entry fp p s)) qs))))"
      by (rule push_quiet_keeps)
    then show ?thesis by (simp add: push_snd pq del: push.simps)
  next
    assume "p \<in> set qs"
    then have "\<forall>f. Pushed p f \<notin> set (fst (push_entry fp p (snd (push fp ?s1 qs))))"
      by (rule Cons.IH)
    then show ?thesis by (simp add: push_snd del: push.simps)
  qed
qed

lemma push_idle:
  assumes "\<forall>p\<in>set ps. \<forall>f. Pushed p f \<notin> set (fst (push_entry fp p s))"
  shows "snd (push fp s ps) = s \<and> (\<forall>q f. Pushed q f \<notin> set (fst (push fp s ps)))"
  using assms
proof (induction ps)
  case Nil
  show ?case by simp
next
  case (Cons p ps)
  from Cons.prems have n: "\<forall>f. Pushed p f \<notin> set (fst (push_entry fp p s))"
    and r: "\<forall>p\<in>set ps. \<forall>f. Pushed p f \<notin> set (fst (push_entry fp p s))"
    by simp_all
  from n have s1: "snd (push_entry fp p s) = s" by (rule push_entry_no_push)
  have n': "\<forall>q f. Pushed q f \<notin> set (fst (push_entry fp p s))"
  proof (intro allI notI)
    fix q f assume h: "Pushed q f \<in> set (fst (push_entry fp p s))"
    have "q = p" using push_entry_Pushed [OF h] by (rule conjunct1)
    with h n show False by simp
  qed
  from r have ih: "snd (push fp s ps) = s \<and> (\<forall>q f. Pushed q f \<notin> set (fst (push fp s ps)))"
    by (rule Cons.IH)
  show ?case
    using n' ih by (simp add: push_snd push_fst s1 del: push.simps)
qed

lemma pull_twice:
  assumes "distinct (map fst (entries (remoteStore s)))"
  shows "snd (pull fp (snd (pull fp s))) = snd (pull fp s)
     \<and> (\<forall>p f. Pulled p f \<notin> set (fst (pull fp (snd (pull fp s)))))"
proof -
  let ?xs = "filter (\<lambda>(p, rf, d). \<not> d) (list_remote fp (remoteStore s))"
  let ?s1 = "snd (pull_all fp ?xs s)"
  have r: "remoteStore ?s1 = remoteStore s" by (rule pull_all_remote)
  note l = pull_listing [OF assms, of "\<lambda>(p, rf, d). \<not> d" fp]
  have "\<forall>x\<in>set ?xs. \<forall>q f. Pulled q f \<notin> set (fst (pull_entry fp x ?s1))"
  proof
    fix x assume "x \<in> set ?xs"
    with l(1) l(2) show "\<forall>q f. Pulled q f \<notin> set (fst (pull_entry fp x ?s1))"
      by (rule pull_all_quiet)
  qed
  then have "snd (pull_all fp ?xs ?s1) = ?s1
      \<and> (\<forall>q f. Pulled q f \<notin> set (fst (pull_all fp ?xs ?s1)))"
    by (rule pull_all_idle)
  then show ?thesis
    unfolding pull_def by (simp add: r)
qed

lemma push_twice:
  "snd (push fp (snd (push fp s selected)) selected) = snd (push fp s selected)
     \<and> (\<forall>p f. Pushed p f \<notin> set (fst (push fp (snd (push fp s selected)) selected)))"
proof -
  let ?s1 = "snd (push fp s selected)"
  have "\<forall>p\<in>set selected. \<forall>f. Pushed p f \<notin> set (fst (push_entry fp p ?s1))"
  proof
    fix p assume "p \<in> set selected"
    then show "\<forall>f. Pushed p f \<notin> set (fst (push_entry fp p ?s1))"
      by (rule push_quiet)
  qed
  then show ?thesis by (rule push_idle)
qed

text \<open>
  Claim C3. The remote collection is keyed by path. A second pull, started in the state
  that a pull has left (nothing has changed in between, remotely or locally), ends in
  that same state: it writes no local file and changes no ledger entry, and it reports
  no entry as pulled. A second push of the same paths, started in the state that the
  push has left, ends in that same state: it puts nothing to the remote store and reports
  no path as pushed.
\<close>

theorem sync_is_idempotent:
  assumes "distinct (map fst (entries (remoteStore s)))"
  shows "snd (pull fp (snd (pull fp s))) = snd (pull fp s)
     \<and> (\<forall>p f. Pulled p f \<notin> set (fst (pull fp (snd (pull fp s)))))
     \<and> snd (push fp (snd (push fp s selected)) selected) = snd (push fp s selected)
     \<and> (\<forall>p f. Pushed p f \<notin> set (fst (push fp (snd (push fp s selected)) selected)))"
  using pull_twice [OF assms, of fp] push_twice [of fp s selected] by blast

theorem sync_is_idempotent_witness:
  "distinct (map fst (entries (remoteStore drift_state)))
   \<and> snd (pull content_fp (snd (pull content_fp drift_state))) = snd (pull content_fp drift_state)
   \<and> Pulled ''a.xsl'' ''v2'' \<in> set (fst (pull content_fp drift_state))
   \<and> Pulled ''a.xsl'' ''v2'' \<notin> set (fst (pull content_fp (snd (pull content_fp drift_state))))
   \<and> snd (push content_fp (snd (push content_fp drift_state [''c.xsl'', ''d.xsl'']))
          [''c.xsl'', ''d.xsl''])
       = snd (push content_fp drift_state [''c.xsl'', ''d.xsl''])
   \<and> Pushed ''c.xsl'' ''v1'' \<in> set (fst (push content_fp drift_state [''c.xsl'', ''d.xsl'']))
   \<and> Pushed ''c.xsl'' ''v1''
        \<notin> set (fst (push content_fp (snd (push content_fp drift_state [''c.xsl'', ''d.xsl'']))
                       [''c.xsl'', ''d.xsl'']))"
proof -
  note t = sync_is_idempotent [OF drift_distinct, where fp = content_fp
      and selected = "[''c.xsl'', ''d.xsl'']"]
  have 1: "Pulled ''a.xsl'' ''v2'' \<in> set (fst (pull content_fp drift_state))"
    unfolding drift_pull by simp
  have 2: "Pushed ''c.xsl'' ''v1'' \<in> set (fst (push content_fp drift_state [''c.xsl'', ''d.xsl'']))"
    unfolding drift_push by simp
  from t drift_distinct 1 2 show ?thesis by blast
qed

subsection \<open>The ledger after a run\<close>

lemma pull_entry_applied:
  assumes "pull_is_due fp s p rf"
    and "map_of (entries (remoteStore s)) p = Some e"
    and "write_local (localRepo s) p (content e) = Inr l'"
  shows "fst (pull_entry fp (p, rf, d) s) = [Pulled p rf]"
  using assms by (simp add: pull_entry_def pull_is_due_def Let_def fetch_remote_def)

lemma pull_entry_apply_failed:
  assumes "pull_is_due fp s p rf"
    and "map_of (entries (remoteStore s)) p = Some e"
    and "write_local (localRepo s) p (content e) = Inl err"
  shows "fst (pull_entry fp (p, rf, d) s) = [Failed p err]"
  using assms by (simp add: pull_entry_def pull_is_due_def Let_def fetch_remote_def)

lemma push_entry_applied:
  assumes "push_is_due fp s p"
    and "read_local (localRepo s) p = Inr b"
    and "put_remote (remoteStore s) p b = Inr r'"
  shows "fst (push_entry fp p s) = [Pushed p (fp b)]"
  using assms by (simp add: push_entry_def push_is_due_def Let_def)

lemma push_entry_put_failed:
  assumes "push_is_due fp s p"
    and "read_local (localRepo s) p = Inr b"
    and "put_remote (remoteStore s) p b = Inl err"
  shows "fst (push_entry fp p s) = [Failed p err]"
  using assms by (simp add: push_entry_def push_is_due_def Let_def)

lemma push_entry_read_failed:
  assumes "push_is_due fp s p"
    and "read_local (localRepo s) p = Inl err"
  shows "fst (push_entry fp p s) = [Failed p err]"
  using assms by (simp add: push_entry_def push_is_due_def Let_def)

lemma pull_entry_view:
  assumes "fst y \<noteq> fst x"
  shows "fst (pull_entry fp x (snd (pull_entry fp y s))) = fst (pull_entry fp x s)"
proof (rule pull_entry_reports_cong)
  have n: "fst x \<noteq> fst y" using assms by (rule not_sym)
  note o = pull_entry_other [OF n, of fp s]
  show "ledger (snd (pull_entry fp y s)) (fst x) = ledger s (fst x)"
    using o by (rule conjunct1)
  show "files (localRepo (snd (pull_entry fp y s))) (fst x) = files (localRepo s) (fst x)"
    using o by (rule conjunct2)
  show "write_fails (localRepo (snd (pull_entry fp y s))) = write_fails (localRepo s)"
    by (rule pull_entry_write_fails)
  show "remoteStore (snd (pull_entry fp y s)) = remoteStore s"
    by (rule pull_entry_remote)
qed

lemma pull_all_reports:
  assumes "distinct (map fst xs)" and "x \<in> set xs" and "rep \<in> set (fst (pull_entry fp x s))"
  shows "rep \<in> set (fst (pull_all fp xs s))"
  using assms
proof (induction xs arbitrary: s)
  case Nil
  then show ?case by simp
next
  case (Cons y ys)
  let ?s1 = "snd (pull_entry fp y s)"
  show ?case
  proof (cases "x = y")
    case True
    with Cons.prems(3) show ?thesis by (simp add: pull_all_fst del: pull_all.simps)
  next
    case False
    with Cons.prems(2) have m: "x \<in> set ys" by simp
    from Cons.prems(1) have dy: "fst y \<notin> fst ` set ys" and dys: "distinct (map fst ys)"
      by simp_all
    from m dy have "fst y \<noteq> fst x" by force
    then have "fst (pull_entry fp x ?s1) = fst (pull_entry fp x s)"
      by (rule pull_entry_view)
    with Cons.prems(3) have "rep \<in> set (fst (pull_entry fp x ?s1))" by simp
    with dys m have "rep \<in> set (fst (pull_all fp ys ?s1))" by (rule Cons.IH)
    then show ?thesis by (simp add: pull_all_fst del: pull_all.simps)
  qed
qed

lemma push_reports:
  assumes "p \<in> set ps" and "rep \<in> set (fst (push_entry fp p s))"
  shows "rep \<in> set (fst (push fp s ps))"
  using assms
proof (induction ps arbitrary: s)
  case Nil
  then show ?case by simp
next
  case (Cons q qs)
  let ?s1 = "snd (push_entry fp q s)"
  show ?case
  proof (cases "q = p")
    case True
    with Cons.prems(2) show ?thesis by (simp add: push_fst del: push.simps)
  next
    case False
    with Cons.prems(1) have m: "p \<in> set qs" by simp
    from False have "fst (push_entry fp p ?s1) = fst (push_entry fp p s)"
      by (rule push_entry_view)
    with Cons.prems(2) have "rep \<in> set (fst (push_entry fp p ?s1))" by simp
    with m have "rep \<in> set (fst (push fp ?s1 qs))" by (rule Cons.IH)
    then show ?thesis by (simp add: push_fst del: push.simps)
  qed
qed

lemma untouched_refl: "untouched p s s"
  by (simp add: untouched_def)

lemma untouched_trans: "untouched p s s1 \<Longrightarrow> untouched p s1 s2 \<Longrightarrow> untouched p s s2"
  by (simp add: untouched_def)

lemma pull_entry_untouched_other: "q \<noteq> fst x \<Longrightarrow> untouched q s (snd (pull_entry fp x s))"
  using pull_entry_other [of q x fp s] by (simp add: untouched_def pull_entry_remote)

lemma push_entry_untouched_other: "q \<noteq> p \<Longrightarrow> untouched p s (snd (push_entry fp q s))"
  using push_entry_other [of q p fp s] by (simp add: untouched_def push_entry_local)

lemma pull_entry_only_own:
  assumes "\<forall>f. Pulled (fst x) f \<notin> set (fst (pull_entry fp x s))"
  shows "snd (pull_entry fp x s) = s"
proof (rule pull_entry_no_pull, intro allI notI)
  fix q f assume h: "Pulled q f \<in> set (fst (pull_entry fp x s))"
  from pull_entry_report_path [OF h] have "q = fst x" by simp
  with h assms show False by blast
qed

lemma pull_all_quiet_untouched:
  "\<forall>f. Pulled q f \<notin> set (fst (pull_all fp xs s)) \<Longrightarrow> untouched q s (snd (pull_all fp xs s))"
proof (induction xs arbitrary: s)
  case Nil
  show ?case by (simp add: untouched_refl)
next
  case (Cons y ys)
  let ?s1 = "snd (pull_entry fp y s)"
  from Cons.prems have h1: "\<forall>f. Pulled q f \<notin> set (fst (pull_entry fp y s))"
    and h2: "\<forall>f. Pulled q f \<notin> set (fst (pull_all fp ys ?s1))"
    by (simp_all add: pull_all_fst del: pull_all.simps)
  have a: "untouched q s ?s1"
  proof (cases "q = fst y")
    case True
    with h1 have "\<forall>f. Pulled (fst y) f \<notin> set (fst (pull_entry fp y s))" by simp
    then have "?s1 = s" by (rule pull_entry_only_own)
    then show ?thesis by (simp add: untouched_refl)
  next
    case False
    then show ?thesis by (rule pull_entry_untouched_other)
  qed
  from h2 have "untouched q ?s1 (snd (pull_all fp ys ?s1))" by (rule Cons.IH)
  with a have "untouched q s (snd (pull_all fp ys ?s1))" by (rule untouched_trans)
  then show ?case by (simp only: pull_all_snd)
qed

lemma push_quiet_untouched:
  "\<forall>f. Pushed p f \<notin> set (fst (push fp s ps)) \<Longrightarrow> untouched p s (snd (push fp s ps))"
proof (induction ps arbitrary: s)
  case Nil
  show ?case by (simp add: untouched_refl)
next
  case (Cons q qs)
  let ?s1 = "snd (push_entry fp q s)"
  from Cons.prems have h1: "\<forall>f. Pushed p f \<notin> set (fst (push_entry fp q s))"
    and h2: "\<forall>f. Pushed p f \<notin> set (fst (push fp ?s1 qs))"
    by (simp_all add: push_fst del: push.simps)
  have a: "untouched p s ?s1"
  proof (cases "q = p")
    case True
    with h1 have "\<forall>f. Pushed p f \<notin> set (fst (push_entry fp p s))" by simp
    then have "snd (push_entry fp p s) = s" by (rule push_entry_no_push)
    with True show ?thesis by (simp add: untouched_refl)
  next
    case False
    then show ?thesis by (rule push_entry_untouched_other)
  qed
  from h2 have "untouched p ?s1 (snd (push fp ?s1 qs))" by (rule Cons.IH)
  with a have "untouched p s (snd (push fp ?s1 qs))" by (rule untouched_trans)
  then show ?case by (simp only: push_snd)
qed

lemma pull_all_untouched_other:
  "p \<notin> fst ` set xs \<Longrightarrow> untouched p s (snd (pull_all fp xs s))"
  using pull_all_other [of p xs fp s] by (simp add: untouched_def pull_all_remote)

lemma pull_all_Failed_untouched:
  assumes "distinct (map fst xs)"
    and "Failed p e \<in> set (fst (pull_all fp xs s))"
  shows "untouched p s (snd (pull_all fp xs s))"
  using assms
proof (induction xs arbitrary: s)
  case Nil
  then show ?case by simp
next
  case (Cons x xs)
  let ?s1 = "snd (pull_entry fp x s)"
  from Cons.prems(1) have dx: "fst x \<notin> fst ` set xs" and dxs: "distinct (map fst xs)"
    by simp_all
  from Cons.prems(2) have "Failed p e \<in> set (fst (pull_entry fp x s))
      \<or> Failed p e \<in> set (fst (pull_all fp xs ?s1))"
    by (simp add: pull_all_fst del: pull_all.simps)
  then show ?case
  proof
    assume "Failed p e \<in> set (fst (pull_entry fp x s))"
    then have pq: "p = fst x \<and> ?s1 = s" by (rule pull_entry_Failed)
    then have "p \<notin> fst ` set xs" using dx by simp
    then have "untouched p ?s1 (snd (pull_all fp xs ?s1))"
      by (rule pull_all_untouched_other)
    with pq show ?thesis by (simp add: pull_all_snd del: pull_all.simps)
  next
    assume h: "Failed p e \<in> set (fst (pull_all fp xs ?s1))"
    from pull_all_report_path [OF h] have "p \<in> fst ` set xs" by simp
    then have "p \<noteq> fst x" using dx by blast
    then have a: "untouched p s ?s1" by (rule pull_entry_untouched_other)
    have "untouched p ?s1 (snd (pull_all fp xs ?s1))"
      using dxs h by (rule Cons.IH)
    with a have "untouched p s (snd (pull_all fp xs ?s1))" by (rule untouched_trans)
    then show ?thesis by (simp only: pull_all_snd)
  qed
qed

lemma push_stuck_untouched:
  "Failed p e \<in> set (fst (push_entry fp p s)) \<Longrightarrow> untouched p s (snd (push fp s qs))"
proof (induction qs arbitrary: s)
  case Nil
  show ?case by (simp add: untouched_refl)
next
  case (Cons q qs)
  let ?s1 = "snd (push_entry fp q s)"
  have "Failed p e \<in> set (fst (push_entry fp p ?s1)) \<and> untouched p s ?s1"
  proof (cases "q = p")
    case True
    from Cons.prems have "snd (push_entry fp p s) = s"
      using push_entry_Failed [of p e fp p s] by blast
    with True Cons.prems show ?thesis by (simp add: untouched_refl)
  next
    case False
    then have "fst (push_entry fp p ?s1) = fst (push_entry fp p s)"
      by (rule push_entry_view)
    moreover have "untouched p s ?s1"
      using False by (rule push_entry_untouched_other)
    ultimately show ?thesis using Cons.prems by simp
  qed
  then have f: "Failed p e \<in> set (fst (push_entry fp p ?s1))" and a: "untouched p s ?s1"
    by blast+
  from f have "untouched p ?s1 (snd (push fp ?s1 qs))" by (rule Cons.IH)
  with a have "untouched p s (snd (push fp ?s1 qs))" by (rule untouched_trans)
  then show ?case by (simp only: push_snd)
qed

text \<open>
  Claim C2. The remote collection is keyed by path (no path is listed twice). The apply
  step of a path is the write of the fetched content to the local repository (pull), or
  the read of the local file and the put of its content to the remote store (push); it is
  taken for a path that the operation works on and whose state asks for it. In every run
  of pull and of push: when the apply step of a path succeeds, the fingerprint of the
  content that was applied is, after the run, the ledger fingerprint of the path and its
  fingerprint on the local and on the remote side; when the apply step fails (the write
  fails, the read fails, or the service rejects the put), the ledger entry of the path,
  its local file and its remote entry are after the run what they were before. No run
  changes a ledger entry in any other way: every path is after the run either as it was
  before, or recorded with a fingerprint that is true on both sides. What a run reports
  says the same: a path reported pulled or pushed is recorded with the reported
  fingerprint, true on both sides, and a path reported failed has kept its ledger entry.
\<close>

theorem ledger_follows_apply:
  assumes "distinct (map fst (entries (remoteStore s)))"
  shows "(map_of (entries (remoteStore s)) p = Some ent \<and> \<not> isDefault ent
          \<and> pull_is_due fp s p (fp (content ent)) \<longrightarrow>
            (write_local (localRepo s) p (content ent) = Inr l' \<longrightarrow>
               agreed fp p (fp (content ent)) (snd (pull fp s)))
          \<and> (write_local (localRepo s) p (content ent) = Inl err \<longrightarrow>
               untouched p s (snd (pull fp s))))
     \<and> (p \<in> set selected \<and> push_is_due fp s p \<longrightarrow>
            (read_local (localRepo s) p = Inr b \<and> put_remote (remoteStore s) p b = Inr r' \<longrightarrow>
               agreed fp p (fp b) (snd (push fp s selected)))
          \<and> (read_local (localRepo s) p = Inr b \<and> put_remote (remoteStore s) p b = Inl err \<longrightarrow>
               untouched p s (snd (push fp s selected)))
          \<and> (read_local (localRepo s) p = Inl err \<longrightarrow>
               untouched p s (snd (push fp s selected))))
     \<and> (untouched q s (snd (pull fp s)) \<or> (\<exists>f. agreed fp q f (snd (pull fp s))))
     \<and> (untouched q s (snd (push fp s selected))
          \<or> (\<exists>f. agreed fp q f (snd (push fp s selected))))
     \<and> (Pulled p f \<in> set (fst (pull fp s)) \<longrightarrow> agreed fp p f (snd (pull fp s)))
     \<and> (Failed p err \<in> set (fst (pull fp s)) \<longrightarrow> ledger (snd (pull fp s)) p = ledger s p)
     \<and> (Pushed p f \<in> set (fst (push fp s selected)) \<longrightarrow>
          agreed fp p f (snd (push fp s selected)))
     \<and> (Failed p err \<in> set (fst (push fp s selected)) \<longrightarrow>
          ledger (snd (push fp s selected)) p = ledger s p)"
proof -
  let ?xs = "filter (\<lambda>(p, rf, d). \<not> d) (list_remote fp (remoteStore s))"
  note l = pull_listing [OF assms, of "\<lambda>(p, rf, d). \<not> d" fp]
  have pulled: "agreed fp x f (snd (pull fp s))" if "Pulled x f \<in> set (fst (pull fp s))" for x f
    unfolding pull_def using l(1) l(2) that [unfolded pull_def] by (rule pull_all_Pulled)
  have pull_failed: "untouched x s (snd (pull fp s))"
    if "Failed x er \<in> set (fst (pull fp s))" for x er
    unfolding pull_def using l(1) that [unfolded pull_def] by (rule pull_all_Failed_untouched)
  have pull_reported: "rep \<in> set (fst (pull fp s))"
    if "map_of (entries (remoteStore s)) p = Some ent" "\<not> isDefault ent"
      "rep \<in> set (fst (pull_entry fp (p, fp (content ent), isDefault ent) s))" for rep
  proof -
    have "(p, fp (content ent), isDefault ent) \<in> set (list_remote fp (remoteStore s))"
      using that(1) by (rule listed)
    then have m: "(p, fp (content ent), isDefault ent) \<in> set ?xs"
      using that(2) by simp
    show ?thesis
      unfolding pull_def using l(1) m that(3) by (rule pull_all_reports)
  qed
  have c1: "agreed fp p (fp (content ent)) (snd (pull fp s))"
    if h: "map_of (entries (remoteStore s)) p = Some ent \<and> \<not> isDefault ent
          \<and> pull_is_due fp s p (fp (content ent))"
      and w: "write_local (localRepo s) p (content ent) = Inr l'"
  proof -
    from h have m: "map_of (entries (remoteStore s)) p = Some ent" and nd: "\<not> isDefault ent"
      and due: "pull_is_due fp s p (fp (content ent))" by blast+
    have "fst (pull_entry fp (p, fp (content ent), isDefault ent) s) = [Pulled p (fp (content ent))]"
      using due m w by (rule pull_entry_applied)
    then have "Pulled p (fp (content ent))
        \<in> set (fst (pull_entry fp (p, fp (content ent), isDefault ent) s))" by simp
    with m nd have "Pulled p (fp (content ent)) \<in> set (fst (pull fp s))" by (rule pull_reported)
    then show ?thesis by (rule pulled)
  qed
  have c2: "untouched p s (snd (pull fp s))"
    if h: "map_of (entries (remoteStore s)) p = Some ent \<and> \<not> isDefault ent
          \<and> pull_is_due fp s p (fp (content ent))"
      and w: "write_local (localRepo s) p (content ent) = Inl err"
  proof -
    from h have m: "map_of (entries (remoteStore s)) p = Some ent" and nd: "\<not> isDefault ent"
      and due: "pull_is_due fp s p (fp (content ent))" by blast+
    have "fst (pull_entry fp (p, fp (content ent), isDefault ent) s) = [Failed p err]"
      using due m w by (rule pull_entry_apply_failed)
    then have "Failed p err
        \<in> set (fst (pull_entry fp (p, fp (content ent), isDefault ent) s))" by simp
    with m nd have "Failed p err \<in> set (fst (pull fp s))" by (rule pull_reported)
    then show ?thesis by (rule pull_failed)
  qed
  have c3: "agreed fp p (fp b) (snd (push fp s selected))"
    if h: "p \<in> set selected \<and> push_is_due fp s p"
      and a: "read_local (localRepo s) p = Inr b \<and> put_remote (remoteStore s) p b = Inr r'"
  proof -
    from h a have "fst (push_entry fp p s) = [Pushed p (fp b)]"
      using push_entry_applied [of fp s p b r'] by blast
    then have "Pushed p (fp b) \<in> set (fst (push_entry fp p s))" by simp
    with h have "Pushed p (fp b) \<in> set (fst (push fp s selected))"
      using push_reports [of p selected "Pushed p (fp b)" fp s] by blast
    then show ?thesis by (rule push_Pushed)
  qed
  have c4: "untouched p s (snd (push fp s selected))"
    if h: "p \<in> set selected \<and> push_is_due fp s p"
      and a: "read_local (localRepo s) p = Inr b \<and> put_remote (remoteStore s) p b = Inl err"
  proof -
    from h a have "fst (push_entry fp p s) = [Failed p err]"
      using push_entry_put_failed [of fp s p b err] by blast
    then have "Failed p err \<in> set (fst (push_entry fp p s))" by simp
    then show ?thesis by (rule push_stuck_untouched)
  qed
  have c5: "untouched p s (snd (push fp s selected))"
    if h: "p \<in> set selected \<and> push_is_due fp s p"
      and a: "read_local (localRepo s) p = Inl err"
  proof -
    from h a have "fst (push_entry fp p s) = [Failed p err]"
      using push_entry_read_failed [of fp s p err] by blast
    then have "Failed p err \<in> set (fst (push_entry fp p s))" by simp
    then show ?thesis by (rule push_stuck_untouched)
  qed
  have c6: "untouched q s (snd (pull fp s)) \<or> (\<exists>f. agreed fp q f (snd (pull fp s)))"
  proof (cases "\<exists>f. Pulled q f \<in> set (fst (pull fp s))")
    case True
    then obtain f where "Pulled q f \<in> set (fst (pull fp s))" by blast
    then have "agreed fp q f (snd (pull fp s))" by (rule pulled)
    then show ?thesis by blast
  next
    case False
    then have "\<forall>f. Pulled q f \<notin> set (fst (pull_all fp ?xs s))"
      by (simp add: pull_def)
    then have "untouched q s (snd (pull_all fp ?xs s))" by (rule pull_all_quiet_untouched)
    then show ?thesis by (simp add: pull_def)
  qed
  have c7: "untouched q s (snd (push fp s selected))
      \<or> (\<exists>f. agreed fp q f (snd (push fp s selected)))"
  proof (cases "\<exists>f. Pushed q f \<in> set (fst (push fp s selected))")
    case True
    then obtain f where "Pushed q f \<in> set (fst (push fp s selected))" by blast
    then have "agreed fp q f (snd (push fp s selected))" by (rule push_Pushed)
    then show ?thesis by blast
  next
    case False
    then have "\<forall>f. Pushed q f \<notin> set (fst (push fp s selected))" by blast
    then have "untouched q s (snd (push fp s selected))" by (rule push_quiet_untouched)
    then show ?thesis by blast
  qed
  have c8: "Pulled p f \<in> set (fst (pull fp s)) \<longrightarrow> agreed fp p f (snd (pull fp s))"
    using pulled by blast
  have c9: "Failed p err \<in> set (fst (pull fp s)) \<longrightarrow> ledger (snd (pull fp s)) p = ledger s p"
    using pull_failed [of p err] by (auto simp: untouched_def)
  have c10: "Pushed p f \<in> set (fst (push fp s selected)) \<longrightarrow>
      agreed fp p f (snd (push fp s selected))"
    using push_Pushed [of p f fp s selected] by blast
  have c11: "Failed p err \<in> set (fst (push fp s selected)) \<longrightarrow>
      ledger (snd (push fp s selected)) p = ledger s p"
    using push_Failed [of p err fp s selected] by blast
  from c1 c2 c3 c4 c5 c6 c7 c8 c9 c10 c11 show ?thesis by blast
qed

theorem ledger_follows_apply_witness:
  "write_local (localRepo drift_state) ''b.xsl'' ''v2'' = Inl IOError
   \<and> read_local (localRepo drift_state) ''c.xsl'' = Inr ''v1''
   \<and> put_remote (remoteStore drift_state) ''d.xsl'' ''v1'' = Inl RemoteRejected
   \<and> read_local (localRepo drift_state) ''e.xsl'' = Inl NotFound
   \<and> agreed content_fp ''a.xsl'' ''v2'' (snd (pull content_fp drift_state))
   \<and> untouched ''b.xsl'' drift_state (snd (pull content_fp drift_state))
   \<and> agreed content_fp ''c.xsl'' ''v1''
        (snd (push content_fp drift_state [''c.xsl'', ''d.xsl'', ''e.xsl'']))
   \<and> untouched ''d.xsl'' drift_state
        (snd (push content_fp drift_state [''c.xsl'', ''d.xsl'', ''e.xsl'']))
   \<and> untouched ''e.xsl'' drift_state
        (snd (push content_fp drift_state [''c.xsl'', ''d.xsl'', ''e.xsl'']))"
proof -
  let ?sel = "[''c.xsl'', ''d.xsl'', ''e.xsl'']"
  let ?v2 = "\<lparr>content = ''v2'', isDefault = False\<rparr>"
  have wa: "write_local (localRepo drift_state) ''a.xsl'' (content ?v2)
      = Inr ((localRepo drift_state)\<lparr>files := (files (localRepo drift_state))(''a.xsl'' \<mapsto> ''v2'')\<rparr>)"
    by (simp add: write_local_def drift_state_def)
  have wb: "write_local (localRepo drift_state) ''b.xsl'' ''v2'' = Inl IOError"
    by (simp add: write_local_def drift_state_def)
  have rc: "read_local (localRepo drift_state) ''c.xsl'' = Inr ''v1''"
    by (simp add: read_local_def drift_state_def)
  have rd: "read_local (localRepo drift_state) ''d.xsl'' = Inr ''v1''"
    by (simp add: read_local_def drift_state_def)
  have re: "read_local (localRepo drift_state) ''e.xsl'' = Inl NotFound"
    by (simp add: read_local_def drift_state_def)
  obtain r' where pc: "put_remote (remoteStore drift_state) ''c.xsl'' ''v1'' = Inr r'"
    by (simp add: put_remote_def drift_state_def)
  have pd: "put_remote (remoteStore drift_state) ''d.xsl'' ''v1'' = Inl RemoteRejected"
    by (simp add: put_remote_def drift_state_def)
  have ha: "map_of (entries (remoteStore drift_state)) ''a.xsl'' = Some ?v2
      \<and> \<not> isDefault ?v2 \<and> pull_is_due content_fp drift_state ''a.xsl'' (content_fp (content ?v2))"
    by (simp add: pull_is_due_def remotelyModified_def newDefault_def fingerprintOf_def
        content_fp_def drift_state_def)
  have hb: "map_of (entries (remoteStore drift_state)) ''b.xsl'' = Some ?v2
      \<and> \<not> isDefault ?v2 \<and> pull_is_due content_fp drift_state ''b.xsl'' (content_fp (content ?v2))"
    by (simp add: pull_is_due_def remotelyModified_def newDefault_def fingerprintOf_def
        content_fp_def drift_state_def)
  have hc: "''c.xsl'' \<in> set ?sel \<and> push_is_due content_fp drift_state ''c.xsl''"
    by (simp add: push_is_due_def conflicted_def locallyModified_def fingerprintOf_def
        remoteFingerprint_def content_fp_def drift_state_def)
  have hd: "''d.xsl'' \<in> set ?sel \<and> push_is_due content_fp drift_state ''d.xsl''"
    by (simp add: push_is_due_def conflicted_def locallyModified_def fingerprintOf_def
        remoteFingerprint_def content_fp_def drift_state_def)
  have he: "''e.xsl'' \<in> set ?sel \<and> push_is_due content_fp drift_state ''e.xsl''"
    by (simp add: push_is_due_def conflicted_def locallyModified_def fingerprintOf_def
        remoteFingerprint_def content_fp_def drift_state_def)
  note a = ledger_follows_apply [OF drift_distinct, where fp = content_fp
      and p = "''a.xsl''" and ent = ?v2
      and l' = "(localRepo drift_state)\<lparr>files := (files (localRepo drift_state))(''a.xsl'' \<mapsto> ''v2'')\<rparr>"]
  note b = ledger_follows_apply [OF drift_distinct, where fp = content_fp
      and p = "''b.xsl''" and ent = ?v2 and err = IOError]
  note c = ledger_follows_apply [OF drift_distinct, where fp = content_fp
      and p = "''c.xsl''" and selected = ?sel and b = "''v1''" and r' = r']
  note d = ledger_follows_apply [OF drift_distinct, where fp = content_fp
      and p = "''d.xsl''" and selected = ?sel and b = "''v1''" and err = RemoteRejected]
  note e = ledger_follows_apply [OF drift_distinct, where fp = content_fp
      and p = "''e.xsl''" and selected = ?sel and err = NotFound]
  from a ha wa have "agreed content_fp ''a.xsl'' (content_fp (content ?v2))
      (snd (pull content_fp drift_state))" by blast
  then have a': "agreed content_fp ''a.xsl'' ''v2'' (snd (pull content_fp drift_state))"
    by (simp add: content_fp_def)
  from b hb wb have b': "untouched ''b.xsl'' drift_state (snd (pull content_fp drift_state))"
    by simp
  from c hc rc pc have "agreed content_fp ''c.xsl'' (content_fp ''v1'')
      (snd (push content_fp drift_state ?sel))" by blast
  then have c': "agreed content_fp ''c.xsl'' ''v1'' (snd (push content_fp drift_state ?sel))"
    by (simp add: content_fp_def)
  from d hd rd pd have d': "untouched ''d.xsl'' drift_state (snd (push content_fp drift_state ?sel))"
    by blast
  from e he re have e': "untouched ''e.xsl'' drift_state (snd (push content_fp drift_state ?sel))"
    by blast
  from wb rc pd re a' b' c' d' e' show ?thesis by blast
qed

end
